theory Spec2Isabelle
  imports Complex_Main
begin

section \<open>Generic tagging: the data model of models.py\<close>

text \<open>
  The two tables of the module. A \<open>Tag\<close> row has the implicit primary key and the
  unique \<open>name\<close>; a \<open>TaggedItem\<close> row has the implicit primary key, the foreign key
  \<open>tag\<close>, and the generic foreign key \<open>object\<close>, stored as \<open>content_type\<close> and
  \<open>object_id\<close>.
\<close>

record tag =
  tag_id :: nat
  tag_name :: string

record tagged_item =
  item_id :: nat
  tag_fk :: nat
  content_type_id :: nat
  object_id :: nat

text \<open>
  Of a tagged object the module reads two things only: the primary key \<open>obj.id\<close> and
  the id of the content type that \<open>ContentType.objects.get_for_model\<close> gives for it.
\<close>

record model_obj =
  ctype_id :: nat
  pk :: nat

datatype error =
    StorageError
  | IntegrityError
  | AssertionError
  | AttributeError
  | ValueError
  | ZeroDivisionError

text \<open>
  The storage layer. The module never opens a transaction, and the ORM commits every
  \<open>save()\<close> and \<open>delete()\<close> on its own, so a write is in the tables as soon as it
  returns. Two fields are there for the sake of the statements: \<open>journal\<close> lists the
  writes the storage has accepted, oldest first, and \<open>outage\<close> is the number of writes
  the storage still accepts before it fails (\<open>None\<close>: it never fails). A failing
  write raises and changes nothing; reads do not fail.
\<close>

datatype db_write =
    DeleteItems "tagged_item list"
  | InsertTag tag
  | InsertItem tagged_item

record store =
  tag_table :: "tag list"
  tagged_item_table :: "tagged_item list"
  journal :: "db_write list"
  outage :: "nat option"

type_synonym 'a outcome = "(error + 'a) \<times> store"

fun apply_write :: "db_write \<Rightarrow> store \<Rightarrow> store" where
  "apply_write (DeleteItems rows) st =
     st\<lparr>tagged_item_table := filter (\<lambda>i. i \<notin> set rows) (tagged_item_table st)\<rparr>"
| "apply_write (InsertTag t) st = st\<lparr>tag_table := tag_table st @ [t]\<rparr>"
| "apply_write (InsertItem i) st = st\<lparr>tagged_item_table := tagged_item_table st @ [i]\<rparr>"

definition storage_write :: "db_write \<Rightarrow> store \<Rightarrow> unit outcome" where
  "storage_write w st =
     (if outage st = Some 0 then (Inl StorageError, st)
      else (Inr (), apply_write w (st\<lparr>journal := journal st @ [w],
                                       outage := map_option (\<lambda>k. k - 1) (outage st)\<rparr>)))"

text \<open>An automatic primary key: larger than every key of the table.\<close>

primrec max_id :: "nat list \<Rightarrow> nat" where
  "max_id [] = 0"
| "max_id (k # ks) = max k (max_id ks)"

definition next_id :: "nat list \<Rightarrow> nat" where
  "next_id ks = Suc (max_id ks)"

text \<open>
  The constraints the two model classes declare: the primary keys, \<open>unique=True\<close> on
  \<open>Tag.name\<close>, \<open>unique_together\<close> on \<open>(tag, content_type, object_id)\<close>, and the
  foreign key from \<open>TaggedItem.tag\<close> to \<open>Tag\<close>.
\<close>

definition triple :: "tagged_item \<Rightarrow> nat \<times> nat \<times> nat" where
  "triple i = (tag_fk i, content_type_id i, object_id i)"

definition schema_ok :: "store \<Rightarrow> bool" where
  "schema_ok st \<longleftrightarrow>
     distinct (map tag_id (tag_table st)) \<and>
     distinct (map tag_name (tag_table st)) \<and>
     distinct (map item_id (tagged_item_table st)) \<and>
     distinct (map triple (tagged_item_table st)) \<and>
     list_all (\<lambda>i. tag_fk i \<in> set (map tag_id (tag_table st))) (tagged_item_table st)"

section \<open>The queries and writes of the ORM that the module calls\<close>

text \<open>
  \<open>Tag.objects.filter(items__...)\<close> joins \<open>tag\<close> with \<open>tagged_item\<close> over the
  foreign key: one result row for every pair of a tag and an item of it that passes the
  conditions, so a tag with two such items comes twice.
\<close>

definition filter_tags_by_items :: "store \<Rightarrow> (tagged_item \<Rightarrow> bool) \<Rightarrow> tag list" where
  "filter_tags_by_items st cond =
     concat (map (\<lambda>t. map (\<lambda>i. t)
                   (filter (\<lambda>i. tag_fk i = tag_id t \<and> cond i) (tagged_item_table st)))
                 (tag_table st))"

text \<open>\<open>TaggedItem.objects.filter(...).delete()\<close>: one batch delete of the rows that match.\<close>

definition delete_tagged_items :: "(tagged_item \<Rightarrow> bool) \<Rightarrow> store \<Rightarrow> unit outcome" where
  "delete_tagged_items cond st =
     storage_write (DeleteItems (filter cond (tagged_item_table st))) st"

text \<open>
  \<open>get_or_create(name=...)\<close>: \<open>get\<close> returns the one row with that name, asserts that
  there are not several, and on none a new \<open>Tag\<close> is saved. The module does not
  validate a name, and the storage is taken to store it as it is: neither the length of
  the slug field nor its characters are checked.
\<close>

definition get_or_create :: "string \<Rightarrow> store \<Rightarrow> tag outcome" where
  "get_or_create n st =
     (case filter (\<lambda>t. tag_name t = n) (tag_table st) of
        [] \<Rightarrow>
          (let t = \<lparr>tag_id = next_id (map tag_id (tag_table st)), tag_name = n\<rparr>
           in case storage_write (InsertTag t) st of
                (Inl e, st') \<Rightarrow> (Inl e, st')
              | (Inr u, st') \<Rightarrow> (Inr t, st'))
      | [t] \<Rightarrow> (Inr t, st)
      | t # t' # ts \<Rightarrow> (Inl AssertionError, st))"

text \<open>
  \<open>TaggedItem.objects.create(tag=tag, object=obj)\<close>: the generic foreign key stores the
  content type and the primary key of \<open>obj\<close>; the database refuses a row whose triple
  is in the table already.
\<close>

definition create_tagged_item :: "tag \<Rightarrow> model_obj \<Rightarrow> store \<Rightarrow> tagged_item outcome" where
  "create_tagged_item t obj st =
     (let row = \<lparr>item_id = next_id (map item_id (tagged_item_table st)),
                 tag_fk = tag_id t,
                 content_type_id = ctype_id obj,
                 object_id = pk obj\<rparr>
      in if triple row \<in> set (map triple (tagged_item_table st))
         then (Inl IntegrityError, st)
         else case storage_write (InsertItem row) st of
                (Inl e, st') \<Rightarrow> (Inl e, st')
              | (Inr u, st') \<Rightarrow> (Inr row, st'))"

section \<open>TagManager\<close>

subsection \<open>str.split() and set()\<close>

definition is_space :: "char \<Rightarrow> bool" where
  "is_space c \<longleftrightarrow>
     c \<in> set [CHR '' '', CHR 0x09, CHR 0x0A, CHR 0x0B, CHR 0x0C, CHR 0x0D]"

text \<open>
  \<open>s.split()\<close> without arguments: the maximal runs of characters that are not
  whitespace. \<open>split_from w cs\<close> has read the word \<open>w\<close> so far.
\<close>

fun split_from :: "string \<Rightarrow> string \<Rightarrow> string list" where
  "split_from w [] = (if w = [] then [] else [w])"
| "split_from w (c # cs) =
     (if is_space c
      then (if w = [] then split_from [] cs else w # split_from [] cs)
      else split_from (w @ [c]) cs)"

definition py_split :: "string \<Rightarrow> string list" where
  "py_split s = split_from [] s"

text \<open>
  \<open>set(xs)\<close>, as the list of its elements in the order the loop visits them. CPython
  visits a set in hash order; the model takes the order of last occurrence, and the
  statements below are about sets of names and of rows, which no order changes.
\<close>

definition py_set :: "string list \<Rightarrow> string list" where
  "py_set xs = remdups xs"

subsection \<open>get_for_object and update_tags\<close>

definition get_for_object :: "store \<Rightarrow> model_obj \<Rightarrow> tag list" where
  "get_for_object st obj =
     filter_tags_by_items st
       (\<lambda>i. content_type_id i = ctype_id obj \<and> object_id i = pk obj)"

text \<open>
  The body of the loop \<open>for tag_name in updated_tag_names\<close> for a name that is not
  among the current ones: \<open>get_or_create\<close>, then \<open>TaggedItem.objects.create\<close>.
\<close>

definition add_tag :: "model_obj \<Rightarrow> string \<Rightarrow> store \<Rightarrow> unit outcome" where
  "add_tag obj n st =
     (case get_or_create n st of
        (Inl e, st1) \<Rightarrow> (Inl e, st1)
      | (Inr t, st1) \<Rightarrow>
          (case create_tagged_item t obj st1 of
             (Inl e, st2) \<Rightarrow> (Inl e, st2)
           | (Inr row, st2) \<Rightarrow> (Inr (), st2)))"

text \<open>The loop itself; an exception leaves it.\<close>

fun add_new_tags :: "model_obj \<Rightarrow> string list \<Rightarrow> string list \<Rightarrow> store \<Rightarrow> unit outcome" where
  "add_new_tags obj current_tag_names [] st = (Inr (), st)"
| "add_new_tags obj current_tag_names (n # rest) st =
     (if n \<notin> set current_tag_names
      then (case add_tag obj n st of
              (Inl e, st1) \<Rightarrow> (Inl e, st1)
            | (Inr u, st1) \<Rightarrow> add_new_tags obj current_tag_names rest st1)
      else add_new_tags obj current_tag_names rest st)"

definition update_tags :: "store \<Rightarrow> model_obj \<Rightarrow> string option \<Rightarrow> unit outcome" where
  "update_tags st obj tag_list =
     (let current_tags = get_for_object st obj;
          updated_tag_names = (case tag_list of None \<Rightarrow> [] | Some s \<Rightarrow> py_set (py_split s));
          tags_for_removal = filter (\<lambda>t. tag_name t \<notin> set updated_tag_names) current_tags;
          removed =
            (if length tags_for_removal > 0
             then delete_tagged_items
                    (\<lambda>i. content_type_id i = ctype_id obj \<and> object_id i = pk obj \<and>
                         tag_fk i \<in> set (map tag_id tags_for_removal)) st
             else (Inr (), st));
          current_tag_names = map tag_name current_tags
      in case removed of
           (Inl e, st1) \<Rightarrow> (Inl e, st1)
         | (Inr u, st1) \<Rightarrow> add_new_tags obj current_tag_names updated_tag_names st1)"

subsection \<open>usage_for_model and cloud_for_model\<close>

text \<open>
  A \<open>Tag\<close> object as the two methods return it: \<open>count\<close> and \<open>font_size\<close> are
  attributes added to the object, \<open>None\<close> while the attribute is not there.
\<close>

record cloud_tag =
  the_tag :: tag
  count :: "nat option"
  font_size :: "int option"

definition usage_for_model :: "store \<Rightarrow> nat \<Rightarrow> bool \<Rightarrow> cloud_tag list" where
  "usage_for_model st ctype counts =
     map (\<lambda>t. \<lparr>the_tag = t,
                count =
                  (if counts
                   then Some (length (filter (\<lambda>i. tag_fk i = tag_id t \<and> content_type_id i = ctype)
                                        (tagged_item_table st)))
                   else None),
                font_size = None\<rparr>)
         (filter_tags_by_items st (\<lambda>i. content_type_id i = ctype))"

text \<open>\<open>xs[a:b]\<close>: a negative index counts from the end, and both are clipped.\<close>

definition py_slice :: "'a list \<Rightarrow> int \<Rightarrow> int \<Rightarrow> 'a list" where
  "py_slice xs a b =
     (let n = int (length xs);
          lo = (if a < 0 then max 0 (n + a) else min n a);
          hi = (if b < 0 then max 0 (n + b) else min n b)
      in drop (nat lo) (take (nat hi) xs))"

text \<open>
  A first reading takes Python's floats as real numbers: \<open>math.log\<close> is \<open>ln\<close>, and
  nothing is rounded. \<open>raw_weight c\<close> is \<open>100 * math.log(tag.count + 2)\<close>. Rounding
  can move a tag to another threshold, so what is said about the threshold a tag gets is
  said over the second reading below, which leaves the float operations open.
\<close>

definition raw_weight :: "nat \<Rightarrow> real" where
  "raw_weight c = 100 * ln (real (c + 2))"

text \<open>
  The inner loop \<open>for threshold in new_thresholds[1:int(steps)+1]\<close> for one tag whose
  count is \<open>c\<close>.
\<close>

fun set_font_size :: "nat \<Rightarrow> cloud_tag \<Rightarrow> bool \<Rightarrow> (real \<times> int) list \<Rightarrow> cloud_tag" where
  "set_font_size c t font_set [] = t"
| "set_font_size c t font_set (threshold # rest) =
     (if raw_weight c \<le> fst threshold \<and> \<not> font_set
      then set_font_size c (t\<lparr>font_size := Some (snd threshold)\<rparr>) True rest
      else set_font_size c t font_set rest)"

text \<open>
  The body of \<open>cloud_for_model\<close> after its first line, for the list \<open>tags\<close>.
  \<open>max\<close> of an empty list raises \<open>ValueError\<close>, a division by \<open>float(0)\<close> raises
  \<open>ZeroDivisionError\<close>, and reading \<open>count\<close> of a tag without it \<open>AttributeError\<close>.
  The counts are read for every tag at \<open>temp\<close>, so in the loop they are there.
\<close>

definition cloud_for_tags :: "cloud_tag list \<Rightarrow> int \<Rightarrow> error + cloud_tag list" where
  "cloud_for_tags tags steps =
     (case those (map count tags) of
        None \<Rightarrow> Inl AttributeError
      | Some temp \<Rightarrow>
          if temp = [] then Inl ValueError
          else
            let max_weight = real (Max (set temp));
                min_weight = real (Min (set temp))
            in if steps = 0 then Inl ZeroDivisionError
               else
                 let new_delta = (max_weight - min_weight) / real_of_int steps;
                     new_thresholds =
                       map (\<lambda>i. (100 * ln ((min_weight + real_of_int i * new_delta) + 2), i))
                           [0..steps]
                 in Inr (map (\<lambda>t. set_font_size (case count t of Some c \<Rightarrow> c | None \<Rightarrow> 0) t False
                                    (py_slice new_thresholds 1 (steps + 1)))
                             tags))"

definition cloud_for_model :: "store \<Rightarrow> nat \<Rightarrow> int \<Rightarrow> error + cloud_tag list" where
  "cloud_for_model st ctype steps = cloud_for_tags (usage_for_model st ctype True) steps"

subsection \<open>cloud_for_model in the arithmetic of the machine\<close>

text \<open>
  The floats of the code are doubles, and what \<open>float()\<close>, \<open>+\<close>, \<open>-\<close>, \<open>*\<close>,
  \<open>/\<close>, \<open>math.log\<close> and \<open><=\<close> return on them is not fixed here: the operations
  are a parameter. \<open>cloud_for_tags_with\<close> is the body of \<open>cloud_for_model\<close> over any
  such operations, with every conversion of an int that Python makes written out;
  \<open>cloud_for_tags\<close> above is its reading in exact real numbers. For at least one step
  and counts that are not negative every argument of \<open>math.log\<close> is positive, so it
  returns.
\<close>

record 'f float_ops =
  to_float :: "int \<Rightarrow> 'f"
  fadd :: "'f \<Rightarrow> 'f \<Rightarrow> 'f"
  fsub :: "'f \<Rightarrow> 'f \<Rightarrow> 'f"
  fmul :: "'f \<Rightarrow> 'f \<Rightarrow> 'f"
  fdiv :: "'f \<Rightarrow> 'f \<Rightarrow> 'f"
  flog :: "'f \<Rightarrow> 'f"
  fle :: "'f \<Rightarrow> 'f \<Rightarrow> bool"

definition raw_weight_with :: "'f float_ops \<Rightarrow> nat \<Rightarrow> 'f" where
  "raw_weight_with ops c = fmul ops (to_float ops 100) (flog ops (to_float ops (int c + 2)))"

fun set_font_size_with ::
  "'f float_ops \<Rightarrow> nat \<Rightarrow> cloud_tag \<Rightarrow> bool \<Rightarrow> ('f \<times> int) list \<Rightarrow> cloud_tag" where
  "set_font_size_with ops c t font_set [] = t"
| "set_font_size_with ops c t font_set (threshold # rest) =
     (if fle ops (raw_weight_with ops c) (fst threshold) \<and> \<not> font_set
      then set_font_size_with ops c (t\<lparr>font_size := Some (snd threshold)\<rparr>) True rest
      else set_font_size_with ops c t font_set rest)"

definition cloud_for_tags_with ::
  "'f float_ops \<Rightarrow> cloud_tag list \<Rightarrow> int \<Rightarrow> error + cloud_tag list" where
  "cloud_for_tags_with ops tags steps =
     (case those (map count tags) of
        None \<Rightarrow> Inl AttributeError
      | Some temp \<Rightarrow>
          if temp = [] then Inl ValueError
          else
            let max_weight = to_float ops (int (Max (set temp)));
                min_weight = to_float ops (int (Min (set temp)))
            in if steps = 0 then Inl ZeroDivisionError
               else
                 let new_delta = fdiv ops (fsub ops max_weight min_weight) (to_float ops steps);
                     new_thresholds =
                       map (\<lambda>i. (fmul ops (to_float ops 100)
                                   (flog ops (fadd ops
                                      (fadd ops min_weight (fmul ops (to_float ops i) new_delta))
                                      (to_float ops 2))), i))
                           [0..steps]
                 in Inr (map (\<lambda>t. set_font_size_with ops
                                      (case count t of Some c \<Rightarrow> c | None \<Rightarrow> 0) t False
                                      (py_slice new_thresholds 1 (steps + 1)))
                             tags))"

definition cloud_for_model_with ::
  "'f float_ops \<Rightarrow> store \<Rightarrow> nat \<Rightarrow> int \<Rightarrow> error + cloud_tag list" where
  "cloud_for_model_with ops st ctype steps =
     cloud_for_tags_with ops (usage_for_model st ctype True) steps"

text \<open>
  Two arithmetics to run it on: the real numbers, and whole numbers with a division that
  rounds down and the identity for the logarithm, a small stand-in for an arithmetic
  that rounds.
\<close>

definition real_ops :: "real float_ops" where
  "real_ops = \<lparr>to_float = real_of_int, fadd = (+), fsub = (-), fmul = (*), fdiv = (/),
               flog = ln, fle = (\<le>)\<rparr>"

definition rounding_ops :: "int float_ops" where
  "rounding_ops = \<lparr>to_float = (\<lambda>i. i), fadd = (+), fsub = (-), fmul = (*), fdiv = (div),
                   flog = (\<lambda>x. x), fle = (\<le>)\<rparr>"

section \<open>Notions for the statements\<close>

text \<open>The rows of a record: those with its content type and its primary key.\<close>

definition own :: "model_obj \<Rightarrow> tagged_item \<Rightarrow> bool" where
  "own obj i \<longleftrightarrow> content_type_id i = ctype_id obj \<and> object_id i = pk obj"

text \<open>The names of the tags that \<open>get_for_object\<close> returns.\<close>

definition names_for :: "store \<Rightarrow> model_obj \<Rightarrow> string set" where
  "names_for st obj = set (map tag_name (get_for_object st obj))"

text \<open>The names a tag string asks for; no string asks for none.\<close>

definition desired :: "string option \<Rightarrow> string set" where
  "desired tag_list = (case tag_list of None \<Rightarrow> {} | Some s \<Rightarrow> set (py_split s))"

text \<open>
  The rows of a record whose tag has a name outside the set \<open>D\<close>: what a
  reconciliation towards \<open>D\<close> has to delete.
\<close>

definition stale_rows :: "store \<Rightarrow> model_obj \<Rightarrow> string set \<Rightarrow> tagged_item list" where
  "stale_rows st obj D =
     filter (\<lambda>i. own obj i \<and>
                 (\<exists>t \<in> set (tag_table st). tag_id t = tag_fk i \<and> tag_name t \<notin> D))
            (tagged_item_table st)"

text \<open>
  What a stretch of the journal did: the rows it inserted, the tags it inserted and the
  batches it deleted.
\<close>

definition inserted_rows :: "db_write list \<Rightarrow> tagged_item list" where
  "inserted_rows ws = concat (map (\<lambda>w. case w of InsertItem i \<Rightarrow> [i] | _ \<Rightarrow> []) ws)"

definition inserted_tags :: "db_write list \<Rightarrow> tag list" where
  "inserted_tags ws = concat (map (\<lambda>w. case w of InsertTag t \<Rightarrow> [t] | _ \<Rightarrow> []) ws)"

definition deleted_batches :: "db_write list \<Rightarrow> tagged_item list list" where
  "deleted_batches ws = concat (map (\<lambda>w. case w of DeleteItems rows \<Rightarrow> [rows] | _ \<Rightarrow> []) ws)"

text \<open>
  \<open>added obj rows st st'\<close>: the store \<open>st'\<close> is \<open>st\<close> after inserts alone, which
  appended some tags and the rows \<open>rows\<close>, all of them rows of \<open>obj\<close>, and which the
  storage had the budget for.
\<close>

definition added :: "model_obj \<Rightarrow> tagged_item list \<Rightarrow> store \<Rightarrow> store \<Rightarrow> bool" where
  "added obj rows st st' \<longleftrightarrow>
     (\<exists>ws.
        tag_table st' = tag_table st @ inserted_tags ws \<and>
        tagged_item_table st' = tagged_item_table st @ rows \<and>
        journal st' = journal st @ ws \<and>
        list_all (own obj) rows \<and>
        inserted_rows ws = rows \<and>
        deleted_batches ws = [] \<and>
        outage st' = map_option (\<lambda>k. k - length ws) (outage st) \<and>
        (case outage st of None \<Rightarrow> True | Some k \<Rightarrow> length ws \<le> k))"

text \<open>
  The thresholds in the words of the specification: with \<open>delta = (maxW - minW) / steps\<close>,
  the threshold \<open>i\<close> is \<open>100 * ln (minW + i * delta + 2)\<close>, and a tag with count
  \<open>c\<close> is under it when \<open>100 * ln (c + 2)\<close> is at most that.
\<close>

definition spec_threshold :: "nat \<Rightarrow> nat \<Rightarrow> int \<Rightarrow> int \<Rightarrow> real" where
  "spec_threshold minW maxW steps i =
     100 * ln (real minW + real_of_int i * ((real maxW - real minW) / real_of_int steps) + 2)"

definition under_threshold :: "nat list \<Rightarrow> int \<Rightarrow> nat \<Rightarrow> int \<Rightarrow> bool" where
  "under_threshold counts steps c i \<longleftrightarrow>
     100 * ln (real c + 2) \<le> spec_threshold (Min (set counts)) (Max (set counts)) steps i"

text \<open>The counts of a list of tags that all have one.\<close>

definition counts_of :: "cloud_tag list \<Rightarrow> nat list" where
  "counts_of tags = map (\<lambda>t. case count t of Some c \<Rightarrow> c | None \<Rightarrow> 0) tags"

definition counted :: "cloud_tag list \<Rightarrow> bool" where
  "counted tags \<longleftrightarrow> list_all (\<lambda>t. count t \<noteq> None) tags"

text \<open>
  The same thresholds in the arithmetic of the machine, each operation and each
  conversion where the code has it.
\<close>

definition threshold_with :: "'f float_ops \<Rightarrow> nat \<Rightarrow> nat \<Rightarrow> int \<Rightarrow> int \<Rightarrow> 'f" where
  "threshold_with ops minW maxW steps i =
     fmul ops (to_float ops 100)
       (flog ops (fadd ops
          (fadd ops (to_float ops (int minW))
             (fmul ops (to_float ops i)
                (fdiv ops (fsub ops (to_float ops (int maxW)) (to_float ops (int minW)))
                          (to_float ops steps))))
          (to_float ops 2)))"

definition under_threshold_with :: "'f float_ops \<Rightarrow> nat list \<Rightarrow> int \<Rightarrow> nat \<Rightarrow> int \<Rightarrow> bool" where
  "under_threshold_with ops counts steps c i \<longleftrightarrow>
     fle ops (fmul ops (to_float ops 100) (flog ops (to_float ops (int c + 2))))
             (threshold_with ops (Min (set counts)) (Max (set counts)) steps i)"

text \<open>
  \<open>replay ws st\<close>: the tables of \<open>st\<close> after the writes \<open>ws\<close>, one after the other.
\<close>

definition replay :: "db_write list \<Rightarrow> store \<Rightarrow> store" where
  "replay ws st = fold apply_write ws st"

section \<open>Example stores\<close>

definition empty_store :: store where
  "empty_store = \<lparr>tag_table = [], tagged_item_table = [], journal = [], outage = None\<rparr>"

text \<open>One object of content type 7 with primary key 1, tagged \<open>a\<close> and \<open>b\<close>.\<close>

definition obj_A :: model_obj where
  "obj_A = \<lparr>ctype_id = 7, pk = 1\<rparr>"

definition obj_B :: model_obj where
  "obj_B = \<lparr>ctype_id = 8, pk = 1\<rparr>"

definition store_ab :: store where
  "store_ab =
     \<lparr>tag_table = [\<lparr>tag_id = 1, tag_name = ''a''\<rparr>, \<lparr>tag_id = 2, tag_name = ''b''\<rparr>],
      tagged_item_table =
        [\<lparr>item_id = 1, tag_fk = 1, content_type_id = 7, object_id = 1\<rparr>,
         \<lparr>item_id = 2, tag_fk = 2, content_type_id = 7, object_id = 1\<rparr>],
      journal = [],
      outage = None\<rparr>"

text \<open>The same store with a storage that accepts one more write and then fails.\<close>

definition store_ab_failing :: store where
  "store_ab_failing = store_ab\<lparr>outage := Some 1\<rparr>"

text \<open>Three tags with the counts 1, 10 and 100, and a store where one tag is used twice.\<close>

definition tags_1_10_100 :: "cloud_tag list" where
  "tags_1_10_100 =
     [\<lparr>the_tag = \<lparr>tag_id = 1, tag_name = ''a''\<rparr>, count = Some 1, font_size = None\<rparr>,
      \<lparr>the_tag = \<lparr>tag_id = 2, tag_name = ''b''\<rparr>, count = Some 10, font_size = None\<rparr>,
      \<lparr>the_tag = \<lparr>tag_id = 3, tag_name = ''c''\<rparr>, count = Some 100, font_size = None\<rparr>]"

definition tags_1_2 :: "cloud_tag list" where
  "tags_1_2 =
     [\<lparr>the_tag = \<lparr>tag_id = 1, tag_name = ''a''\<rparr>, count = Some 1, font_size = None\<rparr>,
      \<lparr>the_tag = \<lparr>tag_id = 2, tag_name = ''b''\<rparr>, count = Some 2, font_size = None\<rparr>]"

definition store_cloud :: store where
  "store_cloud =
     \<lparr>tag_table = [\<lparr>tag_id = 1, tag_name = ''a''\<rparr>, \<lparr>tag_id = 2, tag_name = ''b''\<rparr>],
      tagged_item_table =
        [\<lparr>item_id = 1, tag_fk = 1, content_type_id = 7, object_id = 1\<rparr>,
         \<lparr>item_id = 2, tag_fk = 2, content_type_id = 7, object_id = 1\<rparr>,
         \<lparr>item_id = 3, tag_fk = 2, content_type_id = 7, object_id = 2\<rparr>],
      journal = [],
      outage = None\<rparr>"

section \<open>Facts about str.split()\<close>

text \<open>
  The words of \<open>py_split\<close> are not empty and hold no whitespace, and together they
  are the string without its whitespace.
\<close>

lemma split_from_words:
  assumes "w \<in> set (split_from w0 cs)" and "\<forall>c \<in> set w0. \<not> is_space c"
  shows "w \<noteq> [] \<and> (\<forall>c \<in> set w. \<not> is_space c)"
  using assms
proof (induction cs arbitrary: w0)
  case Nil
  then show ?case by (auto split: if_splits)
next
  case (Cons c cs)
  show ?case
  proof (cases "is_space c")
    case True
    with Cons.prems have "w = w0 \<and> w0 \<noteq> [] \<or> w \<in> set (split_from [] cs)"
      by (auto split: if_splits)
    then show ?thesis
    proof
      assume "w = w0 \<and> w0 \<noteq> []"
      with Cons.prems(2) show ?thesis by simp
    next
      assume "w \<in> set (split_from [] cs)"
      then show ?thesis by (rule Cons.IH) simp
    qed
  next
    case False
    with Cons.prems(1) have "w \<in> set (split_from (w0 @ [c]) cs)" by simp
    then show ?thesis
      by (rule Cons.IH) (use False Cons.prems(2) in auto)
  qed
qed

lemma py_split_words:
  "w \<in> set (py_split s) \<Longrightarrow> w \<noteq> [] \<and> (\<forall>c \<in> set w. \<not> is_space c)"
  using split_from_words [of w "[]" s] by (simp add: py_split_def)

lemma concat_split_from:
  "concat (split_from w0 cs) = w0 @ filter (\<lambda>c. \<not> is_space c) cs"
  by (induction cs arbitrary: w0) auto

lemma concat_py_split: "concat (py_split s) = filter (\<lambda>c. \<not> is_space c) s"
  by (simp add: py_split_def concat_split_from)

section \<open>Facts about the storage layer\<close>

lemma max_id_ge: "k \<in> set ks \<Longrightarrow> k \<le> max_id ks"
  by (induction ks) auto

lemma next_id_fresh: "next_id ks \<notin> set ks"
  using max_id_ge [of "next_id ks" ks] by (auto simp: next_id_def)


lemma get_for_object_own: "get_for_object st obj = filter_tags_by_items st (own obj)"
  by (simp add: get_for_object_def own_def [abs_def])

lemma set_filter_tags_by_items:
  "set (filter_tags_by_items st c) =
     {t \<in> set (tag_table st). \<exists>i \<in> set (tagged_item_table st). tag_fk i = tag_id t \<and> c i}"
  by (auto simp: filter_tags_by_items_def)

lemma names_for_iff:
  "n \<in> names_for st obj \<longleftrightarrow>
     (\<exists>t \<in> set (tag_table st). \<exists>i \<in> set (tagged_item_table st).
        tag_name t = n \<and> tag_fk i = tag_id t \<and> own obj i)"
  by (auto simp: names_for_def get_for_object_own set_filter_tags_by_items)

lemma storage_write_cases [consumes 1, case_names fail ok]:
  assumes "storage_write w st = (r, st')"
  obtains "r = Inl StorageError" "st' = st" "outage st = Some 0"
  | "r = Inr ()" "outage st \<noteq> Some 0"
    "st' = apply_write w (st\<lparr>journal := journal st @ [w],
                              outage := map_option (\<lambda>k. k - 1) (outage st)\<rparr>)"
  using assms by (auto simp: storage_write_def split: if_splits)

lemma filter_unique_key:
  "distinct (map f xs) \<Longrightarrow> filter (\<lambda>x. f x = a) xs = [] \<or> (\<exists>x. filter (\<lambda>x. f x = a) xs = [x])"
  by (induction xs) (auto simp: filter_empty_conv image_iff)

lemma get_or_create_cases [consumes 2, case_names fail found created]:
  assumes "schema_ok st" and "get_or_create n st = (r, st')"
  obtains "r = Inl StorageError" "st' = st" "outage st = Some 0"
  | t where "r = Inr t" "st' = st" "t \<in> set (tag_table st)" "tag_name t = n"
  | t where "r = Inr t" "tag_name t = n"
      "tag_id t \<notin> set (map tag_id (tag_table st))"
      "n \<notin> set (map tag_name (tag_table st))"
      "outage st \<noteq> Some 0"
      "tag_table st' = tag_table st @ [t]"
      "tagged_item_table st' = tagged_item_table st"
      "journal st' = journal st @ [InsertTag t]"
      "outage st' = map_option (\<lambda>k. k - 1) (outage st)"
proof -
  from assms(1) have d: "distinct (map tag_name (tag_table st))"
    by (simp add: schema_ok_def)
  from filter_unique_key [OF d, of n]
  consider "filter (\<lambda>t. tag_name t = n) (tag_table st) = []"
    | t where "filter (\<lambda>t. tag_name t = n) (tag_table st) = [t]"
    by blast
  then show thesis
  proof cases
    case 1
    then have absent: "n \<notin> set (map tag_name (tag_table st))"
      by (auto simp: filter_empty_conv)
    let ?t = "\<lparr>tag_id = next_id (map tag_id (tag_table st)), tag_name = n\<rparr>"
    have fresh: "tag_id ?t \<notin> set (map tag_id (tag_table st))"
      using next_id_fresh [of "map tag_id (tag_table st)"] by simp
    from 1 assms(2) show thesis
      using absent fresh that(1) that(3) [of ?t]
      by (auto simp: get_or_create_def storage_write_def Let_def split: if_splits)
  next
    case (2 t)
    then have "t \<in> set (filter (\<lambda>t. tag_name t = n) (tag_table st))" by simp
    then have "t \<in> set (tag_table st)" "tag_name t = n" by auto
    with 2 assms(2) that(2) [of t] show thesis
      by (auto simp: get_or_create_def)
  qed
qed

lemma create_tagged_item_cases [consumes 1, case_names duplicate fail ok]:
  assumes "create_tagged_item t obj st = (r, st')"
  obtains "r = Inl IntegrityError" "st' = st"
      "(tag_id t, ctype_id obj, pk obj) \<in> set (map triple (tagged_item_table st))"
  | "r = Inl StorageError" "st' = st" "outage st = Some 0"
  | row where "r = Inr row" "own obj row" "tag_fk row = tag_id t"
      "item_id row \<notin> set (map item_id (tagged_item_table st))"
      "triple row \<notin> set (map triple (tagged_item_table st))"
      "outage st \<noteq> Some 0"
      "tag_table st' = tag_table st"
      "tagged_item_table st' = tagged_item_table st @ [row]"
      "journal st' = journal st @ [InsertItem row]"
      "outage st' = map_option (\<lambda>k. k - 1) (outage st)"
proof -
  let ?row = "\<lparr>item_id = next_id (map item_id (tagged_item_table st)), tag_fk = tag_id t,
               content_type_id = ctype_id obj, object_id = pk obj\<rparr>"
  have fresh: "item_id ?row \<notin> set (map item_id (tagged_item_table st))"
    using next_id_fresh [of "map item_id (tagged_item_table st)"] by simp
  have tr: "triple ?row = (tag_id t, ctype_id obj, pk obj)"
    by (simp add: triple_def)
  have ow: "own obj ?row" by (simp add: own_def)
  show thesis
  proof (cases "triple ?row \<in> set (map triple (tagged_item_table st))")
    case True
    with assms that(1) tr show thesis
      by (simp add: create_tagged_item_def Let_def)
  next
    case False
    with assms that(2) that(3) [of ?row] fresh ow show thesis
      by (auto simp: create_tagged_item_def storage_write_def Let_def split: if_splits)
  qed
qed


lemma schema_ok_new_tag:
  assumes "schema_ok st"
    and "tag_table st' = tag_table st @ [t]"
    and "tagged_item_table st' = tagged_item_table st"
    and "tag_id t \<notin> set (map tag_id (tag_table st))"
    and "tag_name t \<notin> set (map tag_name (tag_table st))"
  shows "schema_ok st'"
  using assms by (auto simp: schema_ok_def list_all_iff)

lemma schema_ok_new_row:
  assumes "schema_ok st"
    and "tag_table st' = tag_table st"
    and "tagged_item_table st' = tagged_item_table st @ [row]"
    and "item_id row \<notin> set (map item_id (tagged_item_table st))"
    and "triple row \<notin> set (map triple (tagged_item_table st))"
    and "tag_fk row \<in> set (map tag_id (tag_table st))"
  shows "schema_ok st'"
  using assms by (auto simp: schema_ok_def list_all_iff)

lemma schema_ok_fewer_rows:
  assumes "schema_ok st"
    and "tag_table st' = tag_table st"
    and "tagged_item_table st' = filter keep (tagged_item_table st)"
  shows "schema_ok st'"
  using assms by (auto simp: schema_ok_def list_all_iff distinct_map_filter)

lemma names_for_new_tag:
  assumes "schema_ok st"
    and "tag_table st' = tag_table st @ [t]"
    and "tagged_item_table st' = tagged_item_table st"
    and "tag_id t \<notin> set (map tag_id (tag_table st))"
  shows "names_for st' obj = names_for st obj"
proof -
  have "\<And>i. i \<in> set (tagged_item_table st) \<Longrightarrow> tag_fk i \<noteq> tag_id t"
    using assms(1,4) unfolding schema_ok_def list_all_iff by metis
  then show ?thesis
    using assms(2,3) by (auto simp: names_for_iff set_eq_iff)
qed

lemma names_for_new_row:
  assumes "schema_ok st"
    and "tag_table st' = tag_table st"
    and "tagged_item_table st' = tagged_item_table st @ [row]"
    and "t \<in> set (tag_table st)"
    and "tag_fk row = tag_id t"
    and "own obj row"
  shows "names_for st' obj = insert (tag_name t) (names_for st obj)"
proof -
  have "\<And>u. u \<in> set (tag_table st) \<Longrightarrow> tag_id u = tag_id t \<Longrightarrow> u = t"
    using assms(1,4) by (auto simp: schema_ok_def distinct_map inj_on_def)
  then show ?thesis
    using assms(2-6) by (auto simp: names_for_iff set_eq_iff)
qed

lemma no_row_of_unnamed:
  assumes "t \<in> set (tag_table st)" and "tag_name t \<notin> names_for st obj"
  shows "(tag_id t, ctype_id obj, pk obj) \<notin> set (map triple (tagged_item_table st))"
proof
  assume "(tag_id t, ctype_id obj, pk obj) \<in> set (map triple (tagged_item_table st))"
  then obtain i where "i \<in> set (tagged_item_table st)" "tag_fk i = tag_id t" "own obj i"
    by (auto simp: triple_def own_def)
  with assms(1) have "tag_name t \<in> names_for st obj"
    unfolding names_for_iff by blast
  with assms(2) show False by contradiction
qed

lemma added_refl: "added obj [] st st"
  by (cases "outage st")
     (auto simp: added_def inserted_rows_def inserted_tags_def deleted_batches_def
           intro!: exI [of _ "[]"])

lemma added_trans:
  assumes "added obj rows1 st st1" and "added obj rows2 st1 st2"
  shows "added obj (rows1 @ rows2) st st2"
proof -
  from assms(1) obtain ws1 where 1:
    "tag_table st1 = tag_table st @ inserted_tags ws1"
    "tagged_item_table st1 = tagged_item_table st @ rows1"
    "journal st1 = journal st @ ws1"
    "list_all (own obj) rows1" "inserted_rows ws1 = rows1" "deleted_batches ws1 = []"
    "outage st1 = map_option (\<lambda>k. k - length ws1) (outage st)"
    "case outage st of None \<Rightarrow> True | Some k \<Rightarrow> length ws1 \<le> k"
    unfolding added_def by blast
  from assms(2) obtain ws2 where 2:
    "tag_table st2 = tag_table st1 @ inserted_tags ws2"
    "tagged_item_table st2 = tagged_item_table st1 @ rows2"
    "journal st2 = journal st1 @ ws2"
    "list_all (own obj) rows2" "inserted_rows ws2 = rows2" "deleted_batches ws2 = []"
    "outage st2 = map_option (\<lambda>k. k - length ws2) (outage st1)"
    "case outage st1 of None \<Rightarrow> True | Some k \<Rightarrow> length ws2 \<le> k"
    unfolding added_def by blast
  have "inserted_rows (ws1 @ ws2) = rows1 @ rows2" "deleted_batches (ws1 @ ws2) = []"
    "inserted_tags (ws1 @ ws2) = inserted_tags ws1 @ inserted_tags ws2"
    using 1(5,6) 2(5,6) by (simp_all add: inserted_rows_def deleted_batches_def inserted_tags_def)
  moreover have "outage st2 = map_option (\<lambda>k. k - length (ws1 @ ws2)) (outage st)"
    using 1(7) 2(7) by (cases "outage st") simp_all
  moreover have "case outage st of None \<Rightarrow> True | Some k \<Rightarrow> length (ws1 @ ws2) \<le> k"
    using 1(7,8) 2(8) by (cases "outage st") auto
  ultimately show ?thesis
    unfolding added_def using 1(1-4) 2(1-4)
    by (intro exI [of _ "ws1 @ ws2"]) simp
qed

lemma added_new_tag:
  assumes "tag_table st' = tag_table st @ [t]"
    and "tagged_item_table st' = tagged_item_table st"
    and "journal st' = journal st @ [InsertTag t]"
    and "outage st' = map_option (\<lambda>k. k - 1) (outage st)"
    and "outage st \<noteq> Some 0"
  shows "added obj [] st st'"
  unfolding added_def using assms
  by (intro exI [of _ "[InsertTag t]"])
     (cases "outage st", auto simp: inserted_rows_def inserted_tags_def deleted_batches_def)

lemma added_new_row:
  assumes "tag_table st' = tag_table st"
    and "tagged_item_table st' = tagged_item_table st @ [row]"
    and "journal st' = journal st @ [InsertItem row]"
    and "outage st' = map_option (\<lambda>k. k - 1) (outage st)"
    and "outage st \<noteq> Some 0"
    and "own obj row"
  shows "added obj [row] st st'"
  unfolding added_def using assms
  by (intro exI [of _ "[InsertItem row]"])
     (cases "outage st", auto simp: inserted_rows_def inserted_tags_def deleted_batches_def)

lemma get_or_create_step:
  assumes "schema_ok st" and "get_or_create n st = (r, st')"
  shows "schema_ok st' \<and> added obj [] st st' \<and> names_for st' obj = names_for st obj \<and>
         (r = Inl StorageError \<and> outage st' = Some 0 \<or>
          (\<exists>t. r = Inr t \<and> t \<in> set (tag_table st') \<and> tag_name t = n))"
  using assms
proof (cases rule: get_or_create_cases)
  case fail
  with assms(1) show ?thesis by (simp add: added_refl)
next
  case (found t)
  with assms(1) show ?thesis by (auto simp: added_refl)
next
  case (created t)
  from created(6-9,5) have "added obj [] st st'" by (rule added_new_tag)
  moreover from assms(1) created(6,7,3) have "names_for st' obj = names_for st obj"
    by (rule names_for_new_tag)
  moreover from assms(1) created(6,7,3) created(4) have "schema_ok st'"
    unfolding created(2) [symmetric] by (rule schema_ok_new_tag)
  ultimately show ?thesis using created(1,2,6) by auto
qed

lemma create_tagged_item_step:
  assumes "schema_ok st" and "t \<in> set (tag_table st)" and "tag_name t \<notin> names_for st obj"
    and "create_tagged_item t obj st = (r, st')"
  shows "schema_ok st' \<and>
         (r = Inl StorageError \<and> st' = st \<and> outage st = Some 0 \<or>
          (\<exists>row. r = Inr row \<and> added obj [row] st st' \<and>
                 names_for st' obj = insert (tag_name t) (names_for st obj)))"
  using assms(4)
proof (cases rule: create_tagged_item_cases)
  case duplicate
  with no_row_of_unnamed [OF assms(2,3)] show ?thesis by blast
next
  case fail
  with assms(1) show ?thesis by simp
next
  case (ok row)
  have ref: "tag_fk row \<in> set (map tag_id (tag_table st))"
    using ok(3) assms(2) by simp
  from assms(1) ok(7,8,4,5) ref have "schema_ok st'" by (rule schema_ok_new_row)
  moreover from ok(7-10,6,2) have "added obj [row] st st'" by (rule added_new_row)
  moreover from assms(1) ok(7,8) assms(2) ok(3,2)
  have "names_for st' obj = insert (tag_name t) (names_for st obj)"
    by (rule names_for_new_row)
  ultimately show ?thesis using ok(1) by blast
qed

lemma add_tag_step:
  assumes "schema_ok st" and "n \<notin> names_for st obj" and "add_tag obj n st = (r, st')"
  shows "schema_ok st' \<and>
         (r = Inl StorageError \<and> outage st' = Some 0 \<and> added obj [] st st' \<and>
            names_for st' obj = names_for st obj \<or>
          r = Inr () \<and> (\<exists>row. added obj [row] st st') \<and>
            names_for st' obj = insert n (names_for st obj))"
proof -
  obtain r1 st1 where g: "get_or_create n st = (r1, st1)"
    by (cases "get_or_create n st")
  from get_or_create_step [OF assms(1) g, of obj]
  have s1: "schema_ok st1" and a1: "added obj [] st st1"
    and n1: "names_for st1 obj = names_for st obj"
    and c1: "r1 = Inl StorageError \<and> outage st1 = Some 0 \<or>
             (\<exists>t. r1 = Inr t \<and> t \<in> set (tag_table st1) \<and> tag_name t = n)"
    by blast+
  from c1 show ?thesis
  proof
    assume "r1 = Inl StorageError \<and> outage st1 = Some 0"
    with g assms(3) s1 a1 n1 show ?thesis by (auto simp: add_tag_def)
  next
    assume "\<exists>t. r1 = Inr t \<and> t \<in> set (tag_table st1) \<and> tag_name t = n"
    then obtain t where t: "r1 = Inr t" "t \<in> set (tag_table st1)" "tag_name t = n"
      by blast
    obtain r2 st2 where c: "create_tagged_item t obj st1 = (r2, st2)"
      by (cases "create_tagged_item t obj st1")
    have unnamed: "tag_name t \<notin> names_for st1 obj"
      using t(3) n1 assms(2) by simp
    from create_tagged_item_step [OF s1 t(2) unnamed c]
    have s2: "schema_ok st2"
      and c2: "r2 = Inl StorageError \<and> st2 = st1 \<and> outage st1 = Some 0 \<or>
               (\<exists>row. r2 = Inr row \<and> added obj [row] st1 st2 \<and>
                      names_for st2 obj = insert (tag_name t) (names_for st1 obj))"
      by blast+
    from c2 show ?thesis
    proof
      assume "r2 = Inl StorageError \<and> st2 = st1 \<and> outage st1 = Some 0"
      with g t(1) c assms(3) s1 a1 n1 show ?thesis by (auto simp: add_tag_def)
    next
      assume "\<exists>row. r2 = Inr row \<and> added obj [row] st1 st2 \<and>
                names_for st2 obj = insert (tag_name t) (names_for st1 obj)"
      then obtain row where row: "r2 = Inr row" "added obj [row] st1 st2"
        "names_for st2 obj = insert (tag_name t) (names_for st1 obj)"
        by blast
      from added_trans [OF a1 row(2)] have "added obj [row] st st2" by simp
      moreover from g t(1) c row(1) assms(3) have "r = Inr ()" "st' = st2"
        by (auto simp: add_tag_def)
      ultimately show ?thesis using s2 row(3) n1 t(3) by auto
    qed
  qed
qed


lemma add_new_tags_inv:
  assumes "schema_ok st" and "distinct ns"
    and "\<forall>n \<in> set ns. n \<notin> set cur \<longrightarrow> n \<notin> names_for st obj"
    and "add_new_tags obj cur ns st = (r, st')"
  shows "schema_ok st' \<and>
         (\<exists>rows. added obj rows st st' \<and>
            (r = Inl StorageError \<and> outage st' = Some 0 \<and>
               length rows < length (filter (\<lambda>n. n \<notin> set cur) ns) \<and>
               names_for st obj \<subseteq> names_for st' obj \<and>
               names_for st' obj \<subseteq> names_for st obj \<union> (set ns - set cur) \<or>
             r = Inr () \<and>
               length rows = length (filter (\<lambda>n. n \<notin> set cur) ns) \<and>
               names_for st' obj = names_for st obj \<union> (set ns - set cur)))"
  using assms
proof (induction ns arbitrary: st)
  case Nil
  then show ?case by (auto intro: added_refl)
next
  case (Cons n rest)
  show ?case
  proof (cases "n \<in> set cur")
    case True
    with Cons.prems(4) have run: "add_new_tags obj cur rest st = (r, st')" by simp
    have "schema_ok st' \<and>
         (\<exists>rows. added obj rows st st' \<and>
            (r = Inl StorageError \<and> outage st' = Some 0 \<and>
               length rows < length (filter (\<lambda>n. n \<notin> set cur) rest) \<and>
               names_for st obj \<subseteq> names_for st' obj \<and>
               names_for st' obj \<subseteq> names_for st obj \<union> (set rest - set cur) \<or>
             r = Inr () \<and>
               length rows = length (filter (\<lambda>n. n \<notin> set cur) rest) \<and>
               names_for st' obj = names_for st obj \<union> (set rest - set cur)))"
      using Cons.prems(1-3) run by (intro Cons.IH) simp_all
    moreover have "set (n # rest) - set cur = set rest - set cur"
      using True by auto
    moreover have "filter (\<lambda>n. n \<notin> set cur) (n # rest) = filter (\<lambda>n. n \<notin> set cur) rest"
      using True by simp
    ultimately show ?thesis by simp
  next
    case False
    obtain r1 st1 where body: "add_tag obj n st = (r1, st1)"
      by (cases "add_tag obj n st")
    have unnamed: "n \<notin> names_for st obj"
      using Cons.prems(3) False by simp
    from add_tag_step [OF Cons.prems(1) unnamed body]
    have s1: "schema_ok st1"
      and c1: "r1 = Inl StorageError \<and> outage st1 = Some 0 \<and> added obj [] st st1 \<and>
                 names_for st1 obj = names_for st obj \<or>
               r1 = Inr () \<and> (\<exists>row. added obj [row] st st1) \<and>
                 names_for st1 obj = insert n (names_for st obj)"
      by blast+
    from c1 show ?thesis
    proof
      assume f: "r1 = Inl StorageError \<and> outage st1 = Some 0 \<and> added obj [] st st1 \<and>
                   names_for st1 obj = names_for st obj"
      with body False Cons.prems(4) have "r = Inl StorageError" "st' = st1" by auto
      with f s1 False show ?thesis
        by (intro conjI exI [of _ "[]"]) auto
    next
      assume "r1 = Inr () \<and> (\<exists>row. added obj [row] st st1) \<and>
                names_for st1 obj = insert n (names_for st obj)"
      then obtain row where ok: "r1 = Inr ()" "added obj [row] st st1"
        "names_for st1 obj = insert n (names_for st obj)"
        by blast
      from body ok(1) False Cons.prems(4)
      have run: "add_new_tags obj cur rest st1 = (r, st')" by simp
      have pre: "\<forall>m \<in> set rest. m \<notin> set cur \<longrightarrow> m \<notin> names_for st1 obj"
        using Cons.prems(2,3) ok(3) by auto
      have "schema_ok st' \<and>
         (\<exists>rows. added obj rows st1 st' \<and>
            (r = Inl StorageError \<and> outage st' = Some 0 \<and>
               length rows < length (filter (\<lambda>n. n \<notin> set cur) rest) \<and>
               names_for st1 obj \<subseteq> names_for st' obj \<and>
               names_for st' obj \<subseteq> names_for st1 obj \<union> (set rest - set cur) \<or>
             r = Inr () \<and>
               length rows = length (filter (\<lambda>n. n \<notin> set cur) rest) \<and>
               names_for st' obj = names_for st1 obj \<union> (set rest - set cur)))"
        using s1 Cons.prems(2) pre run by (intro Cons.IH) simp_all
      then obtain rows where s': "schema_ok st'" and a': "added obj rows st1 st'"
        and c': "r = Inl StorageError \<and> outage st' = Some 0 \<and>
               length rows < length (filter (\<lambda>n. n \<notin> set cur) rest) \<and>
               names_for st1 obj \<subseteq> names_for st' obj \<and>
               names_for st' obj \<subseteq> names_for st1 obj \<union> (set rest - set cur) \<or>
             r = Inr () \<and>
               length rows = length (filter (\<lambda>n. n \<notin> set cur) rest) \<and>
               names_for st' obj = names_for st1 obj \<union> (set rest - set cur)"
        by blast
      from added_trans [OF ok(2) a'] have a: "added obj (row # rows) st st'" by simp
      have len: "length (filter (\<lambda>n. n \<notin> set cur) (n # rest)) =
                   Suc (length (filter (\<lambda>n. n \<notin> set cur) rest))"
        using False by simp
      have sets: "insert n (names_for st obj) \<union> (set rest - set cur) =
                    names_for st obj \<union> (set (n # rest) - set cur)"
        using False by auto
      from c' show ?thesis
      proof
        assume "r = Inl StorageError \<and> outage st' = Some 0 \<and>
               length rows < length (filter (\<lambda>n. n \<notin> set cur) rest) \<and>
               names_for st1 obj \<subseteq> names_for st' obj \<and>
               names_for st' obj \<subseteq> names_for st1 obj \<union> (set rest - set cur)"
        then show ?thesis
          using s' a len sets ok(3)
          by (intro conjI exI [of _ "row # rows"] disjI1) auto
      next
        assume "r = Inr () \<and>
               length rows = length (filter (\<lambda>n. n \<notin> set cur) rest) \<and>
               names_for st' obj = names_for st1 obj \<union> (set rest - set cur)"
        then show ?thesis
          using s' a len sets ok(3)
          by (intro conjI exI [of _ "row # rows"] disjI2) auto
      qed
    qed
  qed
qed


lemma delete_tagged_items_cases [consumes 1, case_names fail ok]:
  assumes "delete_tagged_items c st = (r, st')"
  obtains "r = Inl StorageError" "st' = st" "outage st = Some 0"
  | "r = Inr ()" "outage st \<noteq> Some 0"
      "tag_table st' = tag_table st"
      "tagged_item_table st' = filter (\<lambda>i. \<not> c i) (tagged_item_table st)"
      "journal st' = journal st @ [DeleteItems (filter c (tagged_item_table st))]"
      "outage st' = map_option (\<lambda>k. k - 1) (outage st)"
proof -
  have "filter (\<lambda>i. i \<in> set (tagged_item_table st) \<longrightarrow> \<not> c i) (tagged_item_table st) =
        filter (\<lambda>i. \<not> c i) (tagged_item_table st)"
    by (rule filter_cong) auto
  with assms that show thesis
    by (auto simp: delete_tagged_items_def storage_write_def split: if_splits)
qed

text \<open>The filter of the batch delete picks the stale rows.\<close>

lemma removal_filter_stale:
  assumes "i \<in> set (tagged_item_table st)"
  shows "(content_type_id i = ctype_id obj \<and> object_id i = pk obj \<and>
          tag_fk i \<in> set (map tag_id (filter (\<lambda>t. tag_name t \<notin> D) (get_for_object st obj))))
         \<longleftrightarrow> i \<in> set (stale_rows st obj D)"
proof
  assume l: "content_type_id i = ctype_id obj \<and> object_id i = pk obj \<and>
          tag_fk i \<in> set (map tag_id (filter (\<lambda>t. tag_name t \<notin> D) (get_for_object st obj)))"
  then have o: "own obj i" by (simp add: own_def)
  from l obtain t where "t \<in> set (get_for_object st obj)" "tag_name t \<notin> D" "tag_fk i = tag_id t"
    by auto
  then have "t \<in> set (tag_table st)" "tag_id t = tag_fk i" "tag_name t \<notin> D"
    by (simp_all add: get_for_object_own set_filter_tags_by_items)
  with o assms show "i \<in> set (stale_rows st obj D)"
    unfolding stale_rows_def by auto
next
  assume "i \<in> set (stale_rows st obj D)"
  then obtain t where o: "own obj i"
    and t: "t \<in> set (tag_table st)" "tag_id t = tag_fk i" "tag_name t \<notin> D"
    unfolding stale_rows_def by auto
  from t(1,2) o assms have "t \<in> set (get_for_object st obj)"
    unfolding get_for_object_own set_filter_tags_by_items by auto
  with t(2,3) have "tag_fk i \<in> set (map tag_id (filter (\<lambda>t. tag_name t \<notin> D) (get_for_object st obj)))"
    by force
  with o show "content_type_id i = ctype_id obj \<and> object_id i = pk obj \<and>
          tag_fk i \<in> set (map tag_id (filter (\<lambda>t. tag_name t \<notin> D) (get_for_object st obj)))"
    by (simp add: own_def)
qed

lemma stale_rows_empty_iff: "stale_rows st obj D = [] \<longleftrightarrow> names_for st obj \<subseteq> D"
proof
  assume e: "stale_rows st obj D = []"
  show "names_for st obj \<subseteq> D"
  proof
    fix n assume "n \<in> names_for st obj"
    then obtain t i where ti: "t \<in> set (tag_table st)" "i \<in> set (tagged_item_table st)"
      "tag_name t = n" "tag_fk i = tag_id t" "own obj i"
      unfolding names_for_iff by blast
    show "n \<in> D"
    proof (rule ccontr)
      assume "n \<notin> D"
      with ti have "i \<in> set (stale_rows st obj D)"
        unfolding stale_rows_def by auto
      with e show False by simp
    qed
  qed
next
  assume sub: "names_for st obj \<subseteq> D"
  have "i \<notin> set (stale_rows st obj D)" for i
  proof
    assume "i \<in> set (stale_rows st obj D)"
    then obtain t where "i \<in> set (tagged_item_table st)" "own obj i"
      "t \<in> set (tag_table st)" "tag_id t = tag_fk i" "tag_name t \<notin> D"
      unfolding stale_rows_def by auto
    then have "tag_name t \<in> names_for st obj" "tag_name t \<notin> D"
      unfolding names_for_iff by metis+
    with sub show False by auto
  qed
  then show "stale_rows st obj D = []" by (cases "stale_rows st obj D") auto
qed

lemma removal_empty_iff:
  "filter (\<lambda>t. tag_name t \<notin> D) (get_for_object st obj) = [] \<longleftrightarrow> stale_rows st obj D = []"
  by (auto simp: stale_rows_empty_iff filter_empty_conv names_for_def)

lemma names_for_without_stale:
  assumes "schema_ok st"
    and "tag_table st' = tag_table st"
    and "tagged_item_table st' =
           filter (\<lambda>i. i \<notin> set (stale_rows st obj D)) (tagged_item_table st)"
  shows "names_for st' obj = names_for st obj \<inter> D"
proof -
  have uniq: "\<And>t u. t \<in> set (tag_table st) \<Longrightarrow> u \<in> set (tag_table st) \<Longrightarrow>
                 tag_id t = tag_id u \<Longrightarrow> t = u"
    using assms(1) by (auto simp: schema_ok_def distinct_map inj_on_def)
  show ?thesis
  proof (intro set_eqI iffI)
    fix n assume "n \<in> names_for st' obj"
    then obtain t i where ti: "t \<in> set (tag_table st)" "i \<in> set (tagged_item_table st)"
      "i \<notin> set (stale_rows st obj D)" "tag_name t = n" "tag_fk i = tag_id t" "own obj i"
      unfolding names_for_iff assms(2,3) by auto
    then have "n \<in> D" by (auto simp: stale_rows_def)
    moreover from ti have "n \<in> names_for st obj" unfolding names_for_iff by blast
    ultimately show "n \<in> names_for st obj \<inter> D" by simp
  next
    fix n assume "n \<in> names_for st obj \<inter> D"
    then obtain t i where ti: "t \<in> set (tag_table st)" "i \<in> set (tagged_item_table st)"
      "tag_name t = n" "tag_fk i = tag_id t" "own obj i" and d: "n \<in> D"
      by (auto simp: names_for_iff)
    have "i \<notin> set (stale_rows st obj D)"
    proof
      assume "i \<in> set (stale_rows st obj D)"
      then obtain u where u: "u \<in> set (tag_table st)" "tag_id u = tag_fk i" "tag_name u \<notin> D"
        by (auto simp: stale_rows_def)
      with ti(1,4) uniq have "u = t" by simp
      with u(3) ti(3) d show False by simp
    qed
    with ti show "n \<in> names_for st' obj"
      unfolding names_for_iff assms(2,3) by auto
  qed
qed

lemma set_updated_tag_names:
  "set (case tag_list of None \<Rightarrow> [] | Some s \<Rightarrow> py_set (py_split s)) = desired tag_list"
  "distinct (case tag_list of None \<Rightarrow> [] | Some s \<Rightarrow> py_set (py_split s))"
  by (simp_all add: desired_def py_set_def split: option.splits)


lemma removal_step:
  assumes "(if length (filter (\<lambda>t. tag_name t \<notin> D) (get_for_object st obj)) > 0
            then delete_tagged_items
                   (\<lambda>i. content_type_id i = ctype_id obj \<and> object_id i = pk obj \<and>
                        tag_fk i \<in> set (map tag_id
                           (filter (\<lambda>t. tag_name t \<notin> D) (get_for_object st obj)))) st
            else (Inr (), st)) = (r0, mid)"
  shows "r0 = Inl StorageError \<and> mid = st \<and> outage st = Some 0 \<and> stale_rows st obj D \<noteq> [] \<or>
         r0 = Inr () \<and>
         tag_table mid = tag_table st \<and>
         tagged_item_table mid =
           filter (\<lambda>i. i \<notin> set (stale_rows st obj D)) (tagged_item_table st) \<and>
         journal mid = journal st @
           (if stale_rows st obj D = [] then [] else [DeleteItems (stale_rows st obj D)]) \<and>
         outage mid = (if stale_rows st obj D = [] then outage st
                       else map_option (\<lambda>k. k - 1) (outage st)) \<and>
         (stale_rows st obj D = [] \<or> outage st \<noteq> Some 0)"
proof (cases "stale_rows st obj D = []")
  case True
  then have "filter (\<lambda>t. tag_name t \<notin> D) (get_for_object st obj) = []"
    by (simp add: removal_empty_iff)
  with assms True show ?thesis by simp
next
  case False
  let ?c = "\<lambda>i. content_type_id i = ctype_id obj \<and> object_id i = pk obj \<and>
                tag_fk i \<in> set (map tag_id
                   (filter (\<lambda>t. tag_name t \<notin> D) (get_for_object st obj)))"
  from False have "filter (\<lambda>t. tag_name t \<notin> D) (get_for_object st obj) \<noteq> []"
    by (simp add: removal_empty_iff)
  with assms have del: "delete_tagged_items ?c st = (r0, mid)" by simp
  have picked: "filter ?c (tagged_item_table st) = stale_rows st obj D"
  proof -
    have "filter ?c (tagged_item_table st) =
          filter (\<lambda>i. i \<in> set (stale_rows st obj D)) (tagged_item_table st)"
      by (rule filter_cong [OF refl]) (rule removal_filter_stale)
    also have "\<dots> = stale_rows st obj D"
      unfolding stale_rows_def by (rule filter_cong [OF refl]) auto
    finally show ?thesis .
  qed
  have kept: "filter (\<lambda>i. \<not> ?c i) (tagged_item_table st) =
              filter (\<lambda>i. i \<notin> set (stale_rows st obj D)) (tagged_item_table st)"
    by (rule filter_cong [OF refl]) (simp only: removal_filter_stale)
  from del show ?thesis
  proof (cases rule: delete_tagged_items_cases)
    case fail
    with False show ?thesis by simp
  next
    case ok
    with False picked kept show ?thesis by simp
  qed
qed

lemma length_filter_distinct:
  "distinct xs \<Longrightarrow> length (filter P xs) = card {x \<in> set xs. P x}"
  using distinct_card [of "filter P xs"] by simp


lemma update_tags_unfold:
  "update_tags st obj tag_list =
     (case (if length (filter (\<lambda>t. tag_name t \<notin> desired tag_list) (get_for_object st obj)) > 0
            then delete_tagged_items
                   (\<lambda>i. content_type_id i = ctype_id obj \<and> object_id i = pk obj \<and>
                        tag_fk i \<in> set (map tag_id
                           (filter (\<lambda>t. tag_name t \<notin> desired tag_list) (get_for_object st obj)))) st
            else (Inr (), st)) of
        (Inl e, st1) \<Rightarrow> (Inl e, st1)
      | (Inr u, st1) \<Rightarrow>
          add_new_tags obj (map tag_name (get_for_object st obj))
            (case tag_list of None \<Rightarrow> [] | Some s \<Rightarrow> py_set (py_split s)) st1)"
  unfolding update_tags_def Let_def set_updated_tag_names(1) ..

text \<open>
  One run of \<open>update_tags\<close> from a store that keeps the schema: either the batch delete
  fails and nothing has happened, or the stale rows are gone (store \<open>mid\<close>) and the loop
  has added rows to \<open>mid\<close>, all of them or, when the storage failed, some of them.
\<close>

lemma update_tags_run:
  assumes "schema_ok st" and "update_tags st obj tag_list = (r, st')"
  shows "schema_ok st' \<and>
    (r = Inl StorageError \<and> st' = st \<and> outage st = Some 0 \<and>
       stale_rows st obj (desired tag_list) \<noteq> [] \<or>
     (\<exists>mid rows.
        tag_table mid = tag_table st \<and>
        tagged_item_table mid =
          filter (\<lambda>i. i \<notin> set (stale_rows st obj (desired tag_list))) (tagged_item_table st) \<and>
        journal mid = journal st @
          (if stale_rows st obj (desired tag_list) = [] then []
           else [DeleteItems (stale_rows st obj (desired tag_list))]) \<and>
        outage mid = (if stale_rows st obj (desired tag_list) = [] then outage st
                      else map_option (\<lambda>k. k - 1) (outage st)) \<and>
        (stale_rows st obj (desired tag_list) = [] \<or> outage st \<noteq> Some 0) \<and>
        names_for mid obj = names_for st obj \<inter> desired tag_list \<and>
        added obj rows mid st' \<and>
        (r = Inl StorageError \<and> outage st' = Some 0 \<and>
           length rows < card (desired tag_list - names_for st obj) \<and>
           names_for st obj \<inter> desired tag_list \<subseteq> names_for st' obj \<and>
           names_for st' obj \<subseteq> desired tag_list \<or>
         r = Inr () \<and>
           length rows = card (desired tag_list - names_for st obj) \<and>
           names_for st' obj = desired tag_list)))"
proof -
  let ?D = "desired tag_list"
  let ?ns = "case tag_list of None \<Rightarrow> [] | Some s \<Rightarrow> py_set (py_split s)"
  let ?cur = "map tag_name (get_for_object st obj)"
  have ns: "set ?ns = ?D" "distinct ?ns" by (rule set_updated_tag_names)+
  have cur: "set ?cur = names_for st obj" by (simp add: names_for_def)
  obtain r0 mid where rm:
    "(if length (filter (\<lambda>t. tag_name t \<notin> ?D) (get_for_object st obj)) > 0
      then delete_tagged_items
             (\<lambda>i. content_type_id i = ctype_id obj \<and> object_id i = pk obj \<and>
                  tag_fk i \<in> set (map tag_id
                     (filter (\<lambda>t. tag_name t \<notin> ?D) (get_for_object st obj)))) st
      else (Inr (), st)) = (r0, mid)"
    by (rule prod.exhaust)
  have run:
    "(case (r0, mid) of (Inl e, st1) \<Rightarrow> (Inl e, st1)
      | (Inr u, st1) \<Rightarrow> add_new_tags obj ?cur ?ns st1) = (r, st')"
    using assms(2) unfolding update_tags_unfold rm .
  from removal_step [OF rm] show ?thesis
  proof
    assume f: "r0 = Inl StorageError \<and> mid = st \<and> outage st = Some 0 \<and> stale_rows st obj ?D \<noteq> []"
    with run have "r = Inl StorageError" "st' = st" by simp_all
    with f assms(1) show ?thesis by simp
  next
    assume ok: "r0 = Inr () \<and>
         tag_table mid = tag_table st \<and>
         tagged_item_table mid =
           filter (\<lambda>i. i \<notin> set (stale_rows st obj ?D)) (tagged_item_table st) \<and>
         journal mid = journal st @
           (if stale_rows st obj ?D = [] then [] else [DeleteItems (stale_rows st obj ?D)]) \<and>
         outage mid = (if stale_rows st obj ?D = [] then outage st
                       else map_option (\<lambda>k. k - 1) (outage st)) \<and>
         (stale_rows st obj ?D = [] \<or> outage st \<noteq> Some 0)"
    then have tm: "tag_table mid = tag_table st"
      and im: "tagged_item_table mid =
           filter (\<lambda>i. i \<notin> set (stale_rows st obj ?D)) (tagged_item_table st)"
      by blast+
    from assms(1) tm im have sm: "schema_ok mid" by (rule schema_ok_fewer_rows)
    from assms(1) tm im have nm: "names_for mid obj = names_for st obj \<inter> ?D"
      by (rule names_for_without_stale)
    from ok run have loop: "add_new_tags obj ?cur ?ns mid = (r, st')" by simp
    have pre: "\<forall>n \<in> set ?ns. n \<notin> set ?cur \<longrightarrow> n \<notin> names_for mid obj"
      unfolding nm cur by blast
    have count: "length (filter (\<lambda>n. n \<notin> set ?cur) ?ns) = card (?D - names_for st obj)"
    proof -
      have "{x \<in> set ?ns. x \<notin> set ?cur} = ?D - names_for st obj"
        unfolding ns(1) cur by blast
      with length_filter_distinct [OF ns(2), of "\<lambda>n. n \<notin> set ?cur"] show ?thesis by simp
    qed
    have fin: "names_for mid obj \<union> (set ?ns - set ?cur) = ?D"
      unfolding nm ns(1) cur by blast
    from add_new_tags_inv [OF sm ns(2) pre loop]
    obtain rows where s': "schema_ok st'" and a: "added obj rows mid st'"
      and c: "r = Inl StorageError \<and> outage st' = Some 0 \<and>
               length rows < length (filter (\<lambda>n. n \<notin> set ?cur) ?ns) \<and>
               names_for mid obj \<subseteq> names_for st' obj \<and>
               names_for st' obj \<subseteq> names_for mid obj \<union> (set ?ns - set ?cur) \<or>
             r = Inr () \<and>
               length rows = length (filter (\<lambda>n. n \<notin> set ?cur) ?ns) \<and>
               names_for st' obj = names_for mid obj \<union> (set ?ns - set ?cur)"
      by blast
    from c have "r = Inl StorageError \<and> outage st' = Some 0 \<and>
           length rows < card (?D - names_for st obj) \<and>
           names_for st obj \<inter> ?D \<subseteq> names_for st' obj \<and>
           names_for st' obj \<subseteq> ?D \<or>
         r = Inr () \<and>
           length rows = card (?D - names_for st obj) \<and>
           names_for st' obj = ?D"
      unfolding count fin [unfolded nm] nm .
    with ok nm a s' show ?thesis by blast
  qed
qed


subsection \<open>The join returns a tag once\<close>

lemma concat_at_most_one:
  assumes "\<And>t. length (f t) \<le> 1"
  shows "concat (map (\<lambda>t. map (\<lambda>i. t) (f t)) ts) = filter (\<lambda>t. f t \<noteq> []) ts"
proof (induction ts)
  case Nil
  show ?case by simp
next
  case (Cons t ts)
  from assms [of t] have "f t = [] \<or> (\<exists>i. f t = [i])"
    by (cases "f t") auto
  with Cons show ?case by auto
qed

lemma rows_of_tag_at_most_one:
  assumes "distinct (map triple is)"
  shows "length (filter (\<lambda>i. tag_fk i = k \<and> own obj i) is) \<le> 1"
proof -
  have "filter (\<lambda>i. tag_fk i = k \<and> own obj i) is =
        filter (\<lambda>i. triple i = (k, ctype_id obj, pk obj)) is"
    by (rule filter_cong) (auto simp: triple_def own_def)
  with filter_unique_key [OF assms, of "(k, ctype_id obj, pk obj)"] show ?thesis
    by auto
qed

lemma get_for_object_filter:
  assumes "schema_ok st"
  shows "get_for_object st obj =
         filter (\<lambda>t. \<exists>i \<in> set (tagged_item_table st). tag_fk i = tag_id t \<and> own obj i)
                (tag_table st)"
proof -
  from assms have d: "distinct (map triple (tagged_item_table st))"
    by (simp add: schema_ok_def)
  have "get_for_object st obj =
        filter (\<lambda>t. filter (\<lambda>i. tag_fk i = tag_id t \<and> own obj i) (tagged_item_table st) \<noteq> [])
               (tag_table st)"
    unfolding get_for_object_own filter_tags_by_items_def
    by (rule concat_at_most_one) (rule rows_of_tag_at_most_one [OF d])
  also have "\<dots> = filter (\<lambda>t. \<exists>i \<in> set (tagged_item_table st). tag_fk i = tag_id t \<and> own obj i)
                (tag_table st)"
    by (rule filter_cong) (auto simp: filter_empty_conv)
  finally show ?thesis .
qed

lemma distinct_get_for_object:
  assumes "schema_ok st"
  shows "distinct (map tag_name (get_for_object st obj))"
proof -
  from assms have "distinct (map tag_name (tag_table st))"
    by (simp add: schema_ok_def)
  then show ?thesis
    unfolding get_for_object_filter [OF assms] by (rule distinct_map_filter)
qed

subsection \<open>A storage that never fails\<close>

lemma added_outage_None:
  assumes "added obj rows st st'" and "outage st = None"
  shows "outage st' = None"
  using assms by (auto simp: added_def)

lemma update_tags_completes:
  assumes "schema_ok st" and "outage st = None"
  shows "fst (update_tags st obj tag_list) = Inr () \<and>
         outage (snd (update_tags st obj tag_list)) = None"
proof -
  obtain r st' where run: "update_tags st obj tag_list = (r, st')"
    by (rule prod.exhaust)
  from update_tags_run [OF assms(1) run] assms(2)
  obtain mid rows where m: "outage mid = None" "added obj rows mid st'"
    and c: "r = Inl StorageError \<and> outage st' = Some 0 \<or> r = Inr ()"
    by (auto split: if_splits)
  from added_outage_None [OF m(2,1)] c run show ?thesis by auto
qed

subsection \<open>A call that has nothing to do\<close>

lemma add_new_tags_noop:
  "set ns \<subseteq> set cur \<Longrightarrow> add_new_tags obj cur ns st = (Inr (), st)"
  by (induction ns) auto

lemma update_tags_noop:
  assumes "names_for st obj = desired tag_list"
  shows "update_tags st obj tag_list = (Inr (), st)"
proof -
  from assms have "stale_rows st obj (desired tag_list) = []"
    by (simp add: stale_rows_empty_iff)
  then have rm: "filter (\<lambda>t. tag_name t \<notin> desired tag_list) (get_for_object st obj) = []"
    by (simp add: removal_empty_iff)
  have "set (case tag_list of None \<Rightarrow> [] | Some s \<Rightarrow> py_set (py_split s))
          \<subseteq> set (map tag_name (get_for_object st obj))"
    using assms unfolding set_updated_tag_names(1) names_for_def by simp
  then show ?thesis
    unfolding update_tags_unfold rm by (simp add: add_new_tags_noop)
qed


subsection \<open>The rows of other records\<close>

lemma frame_other_object:
  assumes "schema_ok st" and "schema_ok st'"
    and "tag_table st' = tag_table st @ ts"
    and "tagged_item_table st' = filter keep (tagged_item_table st) @ rows"
    and "\<And>i. i \<in> set (tagged_item_table st) \<Longrightarrow> \<not> keep i \<Longrightarrow> own obj i"
    and "list_all (own obj) rows"
    and "ctype_id obj' \<noteq> ctype_id obj \<or> pk obj' \<noteq> pk obj"
  shows "get_for_object st' obj' = get_for_object st obj'"
    and "filter (own obj') (tagged_item_table st') = filter (own obj') (tagged_item_table st)"
proof -
  have other: "\<And>i. own obj' i \<Longrightarrow> \<not> own obj i"
    using assms(7) by (auto simp: own_def)
  have same: "filter (\<lambda>i. P i \<and> own obj' i) (tagged_item_table st') =
              filter (\<lambda>i. P i \<and> own obj' i) (tagged_item_table st)" for P
  proof -
    have "filter (\<lambda>i. P i \<and> own obj' i) rows = []"
      using assms(6) other by (auto simp: filter_empty_conv list_all_iff)
    moreover have "filter (\<lambda>i. (P i \<and> own obj' i) \<and> keep i) (tagged_item_table st) =
                   filter (\<lambda>i. P i \<and> own obj' i) (tagged_item_table st)"
      by (rule filter_cong [OF refl]) (use assms(5) other in blast)
    ultimately show ?thesis
      unfolding assms(4) by (simp add: conj_commute)
  qed
  from same [of "\<lambda>i. True"]
  show "filter (own obj') (tagged_item_table st') = filter (own obj') (tagged_item_table st)"
    by simp
  have fresh: "filter (\<lambda>i. tag_fk i = tag_id t \<and> own obj' i) (tagged_item_table st) = []"
    if "t \<in> set ts" for t
  proof -
    from assms(2) that have "tag_id t \<notin> set (map tag_id (tag_table st))"
      unfolding schema_ok_def assms(3) by auto
    moreover from assms(1)
    have "\<And>i. i \<in> set (tagged_item_table st) \<Longrightarrow> tag_fk i \<in> set (map tag_id (tag_table st))"
      unfolding schema_ok_def list_all_iff by blast
    ultimately show ?thesis
      unfolding filter_empty_conv by metis
  qed
  have "concat (map (\<lambda>t. map (\<lambda>i. t)
           (filter (\<lambda>i. tag_fk i = tag_id t \<and> own obj' i) (tagged_item_table st))) ts) = []"
    using fresh by simp
  then show "get_for_object st' obj' = get_for_object st obj'"
    unfolding get_for_object_own filter_tags_by_items_def same assms(3) by simp
qed

lemma stale_rows_own: "i \<in> set (stale_rows st obj D) \<Longrightarrow> own obj i"
  by (simp add: stale_rows_def)

lemma update_tags_frame:
  assumes "schema_ok st" and "ctype_id obj' \<noteq> ctype_id obj \<or> pk obj' \<noteq> pk obj"
  shows "get_for_object (snd (update_tags st obj tag_list)) obj' = get_for_object st obj' \<and>
         filter (own obj') (tagged_item_table (snd (update_tags st obj tag_list))) =
         filter (own obj') (tagged_item_table st)"
proof -
  obtain r st' where run: "update_tags st obj tag_list = (r, st')"
    by (rule prod.exhaust)
  from update_tags_run [OF assms(1) run]
  have s': "schema_ok st'"
    and c: "st' = st \<or>
      (\<exists>mid rows. tag_table mid = tag_table st \<and>
         tagged_item_table mid =
           filter (\<lambda>i. i \<notin> set (stale_rows st obj (desired tag_list))) (tagged_item_table st) \<and>
         added obj rows mid st')"
    by blast+
  from c show ?thesis
  proof
    assume "st' = st"
    with run show ?thesis by simp
  next
    assume "\<exists>mid rows. tag_table mid = tag_table st \<and>
         tagged_item_table mid =
           filter (\<lambda>i. i \<notin> set (stale_rows st obj (desired tag_list))) (tagged_item_table st) \<and>
         added obj rows mid st'"
    then obtain mid rows ws where
      "tag_table st' = tag_table st @ inserted_tags ws"
      "tagged_item_table st' =
         filter (\<lambda>i. i \<notin> set (stale_rows st obj (desired tag_list))) (tagged_item_table st) @ rows"
      "list_all (own obj) rows"
      unfolding added_def by auto
    from frame_other_object [OF assms(1) s' this(1,2) _ this(3) assms(2)] stale_rows_own
    show ?thesis unfolding run by auto
  qed
qed

subsection \<open>Unique triples, whatever else the store holds\<close>

lemma get_or_create_rows:
  "tagged_item_table (snd (get_or_create n st)) = tagged_item_table st"
  by (auto simp: get_or_create_def storage_write_def Let_def split: list.splits)

lemma create_tagged_item_triples:
  assumes "distinct (map triple (tagged_item_table st))"
  shows "distinct (map triple (tagged_item_table (snd (create_tagged_item t obj st))))"
proof -
  obtain r st' where c: "create_tagged_item t obj st = (r, st')"
    by (rule prod.exhaust)
  from c have "distinct (map triple (tagged_item_table st'))"
    using assms by (cases rule: create_tagged_item_cases) auto
  with c show ?thesis by simp
qed

lemma add_tag_triples:
  assumes "distinct (map triple (tagged_item_table st))"
  shows "distinct (map triple (tagged_item_table (snd (add_tag obj n st))))"
proof -
  obtain r1 st1 where g: "get_or_create n st = (r1, st1)"
    by (rule prod.exhaust)
  with get_or_create_rows [of n st] assms
  have d1: "distinct (map triple (tagged_item_table st1))" by simp
  show ?thesis
  proof (cases r1)
    case (Inl e)
    with g d1 show ?thesis by (simp add: add_tag_def)
  next
    case (Inr t)
    obtain r2 st2 where c: "create_tagged_item t obj st1 = (r2, st2)"
      by (rule prod.exhaust)
    with create_tagged_item_triples [OF d1, of t obj]
    have "distinct (map triple (tagged_item_table st2))" by simp
    with g Inr c show ?thesis by (cases r2) (simp_all add: add_tag_def)
  qed
qed

lemma add_new_tags_triples:
  "distinct (map triple (tagged_item_table st)) \<Longrightarrow>
   distinct (map triple (tagged_item_table (snd (add_new_tags obj cur ns st))))"
proof (induction ns arbitrary: st)
  case Nil
  then show ?case by simp
next
  case (Cons n rest)
  obtain r1 st1 where b: "add_tag obj n st = (r1, st1)"
    by (rule prod.exhaust)
  with add_tag_triples [OF Cons.prems, of obj n]
  have d1: "distinct (map triple (tagged_item_table st1))" by simp
  show ?case
  proof (cases "n \<in> set cur")
    case True
    with Cons show ?thesis by simp
  next
    case False
    with b d1 Cons.IH [of st1] show ?thesis by (cases r1) simp_all
  qed
qed

lemma update_tags_triples:
  assumes "distinct (map triple (tagged_item_table st))"
  shows "distinct (map triple (tagged_item_table (snd (update_tags st obj tag_list))))"
proof -
  obtain r0 mid where rm:
    "(if length (filter (\<lambda>t. tag_name t \<notin> desired tag_list) (get_for_object st obj)) > 0
      then delete_tagged_items
             (\<lambda>i. content_type_id i = ctype_id obj \<and> object_id i = pk obj \<and>
                  tag_fk i \<in> set (map tag_id
                     (filter (\<lambda>t. tag_name t \<notin> desired tag_list) (get_for_object st obj)))) st
      else (Inr (), st)) = (r0, mid)"
    by (rule prod.exhaust)
  from removal_step [OF rm] assms
  have dm: "distinct (map triple (tagged_item_table mid))"
    by (auto simp: distinct_map_filter)
  show ?thesis
    unfolding update_tags_unfold rm
    using dm add_new_tags_triples [OF dm] by (cases r0) simp_all
qed


lemma update_tags_schema_ok:
  "schema_ok st \<Longrightarrow> schema_ok (snd (update_tags st obj tag_list))"
  using update_tags_run [of st obj tag_list "fst (update_tags st obj tag_list)"
                            "snd (update_tags st obj tag_list)"]
  by simp

lemma update_tags_result:
  assumes "schema_ok st" and "update_tags st obj tag_list = (r, st')"
  shows "r = Inr () \<or> r = Inl StorageError"
    and "r = Inr () \<Longrightarrow> names_for st' obj = desired tag_list"
  using update_tags_run [OF assms] by auto

lemmas run_simps =
  update_tags_def get_for_object_def filter_tags_by_items_def add_tag_def
  py_set_def py_split_def is_space_def delete_tagged_items_def storage_write_def
  get_or_create_def create_tagged_item_def next_id_def triple_def Let_def
  names_for_def desired_def own_def schema_ok_def stale_rows_def
  inserted_rows_def inserted_tags_def deleted_batches_def
  store_ab_def store_ab_failing_def obj_A_def obj_B_def empty_store_def


section \<open>update_tags\<close>

text \<open>
  C1. From a store that keeps the schema, a call of \<open>update_tags\<close> that completes
  leaves the record with exactly the names of the tag string: the names
  \<open>get_for_object\<close> returns are the words of the string, none for no string and for
  the empty string, every name comes once and no triple is in the table twice. A storage
  that never fails lets the call complete.
\<close>

theorem update_tags_gives_desired:
  assumes "schema_ok st"
  shows "(outage st = None \<longrightarrow> fst (update_tags st obj tag_list) = Inr ()) \<and>
         (fst (update_tags st obj tag_list) = Inr () \<longrightarrow>
            names_for (snd (update_tags st obj tag_list)) obj = desired tag_list \<and>
            distinct (map tag_name (get_for_object (snd (update_tags st obj tag_list)) obj)) \<and>
            distinct (map triple (tagged_item_table (snd (update_tags st obj tag_list))))) \<and>
         desired None = {} \<and> desired (Some []) = {}"
proof -
  have finishes: "fst (update_tags st obj tag_list) = Inr ()" if "outage st = None"
    using update_tags_completes [OF assms that] by blast
  have names: "names_for (snd (update_tags st obj tag_list)) obj = desired tag_list"
    if "fst (update_tags st obj tag_list) = Inr ()"
  proof -
    from that
    have "update_tags st obj tag_list = (Inr (), snd (update_tags st obj tag_list))"
      by (simp add: prod_eq_iff)
    from update_tags_result(2) [OF assms this] show ?thesis by simp
  qed
  have once: "distinct (map tag_name (get_for_object (snd (update_tags st obj tag_list)) obj))"
    using update_tags_schema_ok [OF assms] by (rule distinct_get_for_object)
  have uniq: "distinct (map triple (tagged_item_table (snd (update_tags st obj tag_list))))"
    using update_tags_schema_ok [OF assms, of obj tag_list] by (simp add: schema_ok_def)
  have none: "desired None = {}" "desired (Some []) = {}"
    by (simp_all add: desired_def py_split_def)
  from finishes names once uniq none show ?thesis by blast
qed

theorem update_tags_gives_desired_witness:
  "schema_ok store_ab \<and> outage store_ab = None \<and>
   fst (update_tags store_ab obj_A (Some ''b  c b'')) = Inr () \<and>
   names_for (snd (update_tags store_ab obj_A (Some ''b  c b''))) obj_A = {''b'', ''c''} \<and>
   names_for (snd (update_tags store_ab obj_A None)) obj_A = {}"
proof -
  have h: "schema_ok store_ab" by (simp add: run_simps)
  have o: "outage store_ab = None" by (simp add: store_ab_def)
  have d: "desired (Some ''b  c b'') = {''b'', ''c''}" by (auto simp: run_simps)
  from update_tags_gives_desired [OF h, of obj_A "Some ''b  c b''"]
       update_tags_gives_desired [OF h, of obj_A None] h o d
  show ?thesis by simp
qed

text \<open>
  C4. \<open>update_tags\<close> keeps the triples \<open>(tag, content_type, object_id)\<close> of the
  association table unique, whatever its outcome. From a store that keeps the whole
  schema it does not even try to insert a triple a second time: the database never
  answers with an integrity error, and the schema is kept.
\<close>

theorem update_tags_triples_unique:
  assumes "distinct (map triple (tagged_item_table st))"
  shows "distinct (map triple (tagged_item_table (snd (update_tags st obj tag_list)))) \<and>
         (schema_ok st \<longrightarrow>
            fst (update_tags st obj tag_list) \<noteq> Inl IntegrityError \<and>
            schema_ok (snd (update_tags st obj tag_list)))"
proof -
  have "fst (update_tags st obj tag_list) \<noteq> Inl IntegrityError" if s: "schema_ok st"
  proof -
    have "update_tags st obj tag_list =
            (fst (update_tags st obj tag_list), snd (update_tags st obj tag_list))"
      by simp
    from update_tags_result(1) [OF s this] show ?thesis by auto
  qed
  with update_tags_triples [OF assms] update_tags_schema_ok show ?thesis by blast
qed

theorem update_tags_triples_unique_witness:
  "distinct (map triple (tagged_item_table store_ab)) \<and> schema_ok store_ab \<and>
   map triple (tagged_item_table (snd (update_tags store_ab obj_A (Some ''b c'')))) =
     [(2, 7, 1), (3, 7, 1)] \<and>
   distinct (map triple (tagged_item_table (snd (update_tags store_ab obj_A (Some ''b c''))))) \<and>
   fst (update_tags store_ab obj_A (Some ''b c'')) \<noteq> Inl IntegrityError"
proof -
  have d: "distinct (map triple (tagged_item_table store_ab))" by (simp add: run_simps)
  have h: "schema_ok store_ab" by (simp add: run_simps)
  have v: "map triple (tagged_item_table (snd (update_tags store_ab obj_A (Some ''b c'')))) =
     [(2, 7, 1), (3, 7, 1)]" by (simp add: run_simps)
  from update_tags_triples_unique [OF d, of obj_A "Some ''b c''"] d h v
  show ?thesis by simp
qed

text \<open>
  C6. \<open>update_tags\<close> is idempotent. After a call that completed, from a store that keeps
  the schema, the same call again completes and returns the store as it found it: the
  journal shows no further write, so no row is deleted and none created, the names of the
  record are those of the tag string as before, and no triple is there twice.
\<close>

theorem update_tags_idempotent:
  assumes "schema_ok st" and "update_tags st obj tag_list = (Inr (), st1)"
  shows "update_tags st1 obj tag_list = (Inr (), st1) \<and>
         journal (snd (update_tags st1 obj tag_list)) = journal st1 \<and>
         names_for (snd (update_tags st1 obj tag_list)) obj = names_for st1 obj \<and>
         names_for st1 obj = desired tag_list \<and>
         distinct (map triple (tagged_item_table (snd (update_tags st1 obj tag_list))))"
proof -
  from update_tags_result(2) [OF assms] have n: "names_for st1 obj = desired tag_list"
    by simp
  then have again: "update_tags st1 obj tag_list = (Inr (), st1)"
    by (rule update_tags_noop)
  from update_tags_schema_ok [OF assms(1), of obj tag_list] assms(2)
  have "distinct (map triple (tagged_item_table st1))"
    by (simp add: schema_ok_def)
  with n again show ?thesis by simp
qed

theorem update_tags_idempotent_witness:
  "schema_ok store_ab \<and>
   update_tags store_ab obj_A (Some ''a b c'') =
     (Inr (), snd (update_tags store_ab obj_A (Some ''a b c''))) \<and>
   update_tags (snd (update_tags store_ab obj_A (Some ''a b c''))) obj_A (Some ''a b c'') =
     (Inr (), snd (update_tags store_ab obj_A (Some ''a b c''))) \<and>
   names_for (snd (update_tags store_ab obj_A (Some ''a b c''))) obj_A = {''a'', ''b'', ''c''}"
proof -
  have h: "schema_ok store_ab" by (simp add: run_simps)
  have r: "update_tags store_ab obj_A (Some ''a b c'') =
     (Inr (), snd (update_tags store_ab obj_A (Some ''a b c'')))"
    by (simp add: run_simps)
  have d: "desired (Some ''a b c'') = {''a'', ''b'', ''c''}" by (auto simp: run_simps)
  from update_tags_idempotent [OF h r] h r d show ?thesis by simp
qed

text \<open>
  C9. Records of different types do not share tags. Whatever the outcome of
  \<open>update_tags\<close> for a record, a record of another content type has the tags and the
  rows it had, also when both have the same primary key. So, with a storage that does
  not fail, tagging \<open>obj\<close> with \<open>a\<close> and then \<open>obj'\<close>, of another type and with the
  same primary key, with \<open>b\<close> leaves \<open>obj\<close> with exactly \<open>a\<close> and \<open>obj'\<close> with
  exactly \<open>b\<close>.
\<close>

theorem type_isolation:
  assumes "schema_ok st" and "ctype_id obj' \<noteq> ctype_id obj"
  shows "get_for_object (snd (update_tags st obj tag_list)) obj' = get_for_object st obj' \<and>
         filter (own obj') (tagged_item_table (snd (update_tags st obj tag_list))) =
           filter (own obj') (tagged_item_table st) \<and>
         (outage st = None \<and> pk obj' = pk obj \<longrightarrow>
            fst (update_tags st obj (Some ''a'')) = Inr () \<and>
            fst (update_tags (snd (update_tags st obj (Some ''a''))) obj' (Some ''b'')) = Inr () \<and>
            names_for (snd (update_tags (snd (update_tags st obj (Some ''a''))) obj' (Some ''b'')))
              obj = {''a''} \<and>
            names_for (snd (update_tags (snd (update_tags st obj (Some ''a''))) obj' (Some ''b'')))
              obj' = {''b''})"
proof -
  let ?st1 = "snd (update_tags st obj (Some ''a''))"
  let ?st2 = "snd (update_tags ?st1 obj' (Some ''b''))"
  from assms(2) have other: "ctype_id obj' \<noteq> ctype_id obj \<or> pk obj' \<noteq> pk obj" by simp
  note frame = update_tags_frame [OF assms(1) other, of tag_list]
  have scenario: "fst (update_tags st obj (Some ''a'')) = Inr () \<and>
      fst (update_tags ?st1 obj' (Some ''b'')) = Inr () \<and>
      names_for ?st2 obj = {''a''} \<and> names_for ?st2 obj' = {''b''}"
    if o: "outage st = None"
  proof -
    have da: "desired (Some ''a'') = {''a''}" and db: "desired (Some ''b'') = {''b''}"
      by (simp_all add: desired_def py_split_def is_space_def)
    from update_tags_completes [OF assms(1) o, of obj "Some ''a''"]
    have r1: "fst (update_tags st obj (Some ''a'')) = Inr ()" and o1: "outage ?st1 = None"
      by blast+
    have s1: "schema_ok ?st1" using assms(1) by (rule update_tags_schema_ok)
    from update_tags_completes [OF s1 o1, of obj' "Some ''b''"]
    have r2: "fst (update_tags ?st1 obj' (Some ''b'')) = Inr ()" by blast
    have n1: "names_for ?st1 obj = {''a''}"
      using update_tags_result(2) [OF assms(1), of obj "Some ''a''" "Inr ()" ?st1] r1 da
      by (simp add: prod_eq_iff)
    have n2: "names_for ?st2 obj' = {''b''}"
      using update_tags_result(2) [OF s1, of obj' "Some ''b''" "Inr ()" ?st2] r2 db
      by (simp add: prod_eq_iff)
    from assms(2) have rev: "ctype_id obj \<noteq> ctype_id obj' \<or> pk obj \<noteq> pk obj'" by auto
    from update_tags_frame [OF s1 rev, of "Some ''b''"]
    have "names_for ?st2 obj = names_for ?st1 obj" by (simp add: names_for_def)
    with n1 r1 r2 n2 show ?thesis by simp
  qed
  from frame scenario show ?thesis by blast
qed

theorem type_isolation_witness:
  "schema_ok store_ab \<and> ctype_id obj_B \<noteq> ctype_id obj_A \<and> pk obj_B = pk obj_A \<and>
   outage store_ab = None \<and>
   names_for (snd (update_tags (snd (update_tags store_ab obj_A (Some ''a''))) obj_B (Some ''b'')))
     obj_A = {''a''} \<and>
   names_for (snd (update_tags (snd (update_tags store_ab obj_A (Some ''a''))) obj_B (Some ''b'')))
     obj_B = {''b''} \<and>
   map tag_name (get_for_object (snd (update_tags store_ab obj_B (Some ''b''))) obj_A) =
     [''a'', ''b'']"
proof -
  have h: "schema_ok store_ab" by (simp add: run_simps)
  have c: "ctype_id obj_B \<noteq> ctype_id obj_A" "pk obj_B = pk obj_A" "outage store_ab = None"
    by (simp_all add: run_simps)
  have c': "ctype_id obj_A \<noteq> ctype_id obj_B"
    by (simp add: run_simps)
  have g: "map tag_name (get_for_object store_ab obj_A) = [''a'', ''b'']"
    by (simp add: run_simps)
  from type_isolation [OF h c(1), of "Some ''b''"]
       type_isolation [OF h c', of "Some ''b''"] h c g
  show ?thesis by simp
qed


text \<open>
  C5. \<open>update_tags\<close> makes the minimal change. A call that completes runs at most one
  batch delete, none when every current name is wanted, and the batch is the stale rows:
  the rows of the record whose tag has a name that is not wanted. It then inserts one row
  of the record for every wanted name that is not current, and deletes nothing more.
  Every other row of the table, so every row of a tag that is current and wanted, is the
  row it was, in its place.
\<close>

theorem update_tags_minimal_diff:
  assumes "schema_ok st" and "update_tags st obj tag_list = (Inr (), st')"
  shows "\<exists>rows ws.
           tagged_item_table st' =
             filter (\<lambda>i. i \<notin> set (stale_rows st obj (desired tag_list)))
                    (tagged_item_table st) @ rows \<and>
           journal st' = journal st @
             (if names_for st obj \<subseteq> desired tag_list then []
              else [DeleteItems (stale_rows st obj (desired tag_list))]) @ ws \<and>
           deleted_batches ws = [] \<and>
           inserted_rows ws = rows \<and>
           list_all (own obj) rows \<and>
           length rows = card (desired tag_list - names_for st obj) \<and>
           names_for st' obj = desired tag_list"
proof -
  let ?stale = "stale_rows st obj (desired tag_list)"
  from update_tags_run [OF assms]
  obtain mid rows where mid:
      "tagged_item_table mid = filter (\<lambda>i. i \<notin> set ?stale) (tagged_item_table st)"
      "journal mid = journal st @ (if ?stale = [] then [] else [DeleteItems ?stale])"
    and rows: "added obj rows mid st'"
      "length rows = card (desired tag_list - names_for st obj)"
      "names_for st' obj = desired tag_list"
    by auto
  from rows(1) obtain ws where ws:
      "tagged_item_table st' = tagged_item_table mid @ rows"
      "journal st' = journal mid @ ws"
      "list_all (own obj) rows" "inserted_rows ws = rows" "deleted_batches ws = []"
    unfolding added_def by blast
  from mid ws rows(2,3) show ?thesis
    unfolding stale_rows_empty_iff by (intro exI [of _ rows] exI [of _ ws]) simp
qed

theorem update_tags_minimal_diff_witness:
  "schema_ok store_ab \<and>
   names_for store_ab obj_A = {''a'', ''b''} \<and>
   fst (update_tags store_ab obj_A (Some ''b c'')) = Inr () \<and>
   stale_rows store_ab obj_A (desired (Some ''b c'')) =
     [\<lparr>item_id = 1, tag_fk = 1, content_type_id = 7, object_id = 1\<rparr>] \<and>
   journal (snd (update_tags store_ab obj_A (Some ''b c''))) =
     [DeleteItems [\<lparr>item_id = 1, tag_fk = 1, content_type_id = 7, object_id = 1\<rparr>],
      InsertTag \<lparr>tag_id = 3, tag_name = ''c''\<rparr>,
      InsertItem \<lparr>item_id = 3, tag_fk = 3, content_type_id = 7, object_id = 1\<rparr>] \<and>
   tagged_item_table (snd (update_tags store_ab obj_A (Some ''b c''))) =
     [\<lparr>item_id = 2, tag_fk = 2, content_type_id = 7, object_id = 1\<rparr>,
      \<lparr>item_id = 3, tag_fk = 3, content_type_id = 7, object_id = 1\<rparr>] \<and>
   names_for (snd (update_tags store_ab obj_A (Some ''b c''))) obj_A = {''b'', ''c''}"
proof -
  have h: "schema_ok store_ab" by (simp add: run_simps)
  have f: "fst (update_tags store_ab obj_A (Some ''b c'')) = Inr ()"
    by (simp add: run_simps)
  then have r: "update_tags store_ab obj_A (Some ''b c'') =
             (Inr (), snd (update_tags store_ab obj_A (Some ''b c'')))"
    by (simp add: prod_eq_iff)
  have n: "names_for store_ab obj_A = {''a'', ''b''}" by (auto simp: run_simps)
  have d: "desired (Some ''b c'') = {''b'', ''c''}" by (auto simp: run_simps)
  have s: "stale_rows store_ab obj_A (desired (Some ''b c'')) =
     [\<lparr>item_id = 1, tag_fk = 1, content_type_id = 7, object_id = 1\<rparr>]"
    by (simp add: run_simps)
  have j: "journal (snd (update_tags store_ab obj_A (Some ''b c''))) =
     [DeleteItems [\<lparr>item_id = 1, tag_fk = 1, content_type_id = 7, object_id = 1\<rparr>],
      InsertTag \<lparr>tag_id = 3, tag_name = ''c''\<rparr>,
      InsertItem \<lparr>item_id = 3, tag_fk = 3, content_type_id = 7, object_id = 1\<rparr>]"
    by (simp add: run_simps)
  have t: "tagged_item_table (snd (update_tags store_ab obj_A (Some ''b c''))) =
     [\<lparr>item_id = 2, tag_fk = 2, content_type_id = 7, object_id = 1\<rparr>,
      \<lparr>item_id = 3, tag_fk = 3, content_type_id = 7, object_id = 1\<rparr>]"
    by (simp add: run_simps)
  from update_tags_minimal_diff [OF h r]
  have "names_for (snd (update_tags store_ab obj_A (Some ''b c''))) obj_A =
          desired (Some ''b c'')"
    by blast
  then have nn: "names_for (snd (update_tags store_ab obj_A (Some ''b c''))) obj_A =
          {''b'', ''c''}"
    unfolding d .
  from h n f s j t nn show ?thesis by blast
qed


subsection \<open>Replaying accepted writes\<close>

lemma replay_Nil: "replay [] st = st"
  by (simp add: replay_def)

lemma replay_append: "replay (ws @ vs) st = replay vs (replay ws st)"
  by (simp add: replay_def)

lemma replay_inserts:
  assumes "deleted_batches ws = []"
  shows "tag_table (replay ws st) = tag_table st @ inserted_tags ws \<and>
         tagged_item_table (replay ws st) = tagged_item_table st @ inserted_rows ws \<and>
         journal (replay ws st) = journal st \<and> outage (replay ws st) = outage st"
  using assms
proof (induction ws arbitrary: st)
  case Nil
  show ?case by (simp add: replay_def inserted_tags_def inserted_rows_def)
next
  case (Cons w ws)
  from Cons.prems have rest: "deleted_batches ws = []" and w: "\<forall>rows. w \<noteq> DeleteItems rows"
    by (auto simp: deleted_batches_def split: db_write.splits)
  have step: "replay (w # ws) st = replay ws (apply_write w st)"
    by (simp add: replay_def)
  from w show ?case
    unfolding step using Cons.IH [OF rest, of "apply_write w st"]
    by (cases w) (simp_all add: inserted_tags_def inserted_rows_def)
qed

lemma replay_delete:
  "tag_table (replay [DeleteItems rows] st) = tag_table st \<and>
   tagged_item_table (replay [DeleteItems rows] st) =
     filter (\<lambda>i. i \<notin> set rows) (tagged_item_table st) \<and>
   journal (replay [DeleteItems rows] st) = journal st \<and>
   outage (replay [DeleteItems rows] st) = outage st"
  by (simp add: replay_def)


text \<open>
  Whatever the outcome of \<open>update_tags\<close>, the store it leaves is the store it found with
  the writes of the journal applied: the batch delete of the stale rows first, if there
  is one, and inserts after it.
\<close>

lemma update_tags_writes:
  assumes "schema_ok st" and "update_tags st obj tag_list = (r, st')"
  shows "\<exists>ws. journal st' = journal st @ ws \<and>
          tag_table st' = tag_table (replay ws st) \<and>
          tagged_item_table st' = tagged_item_table (replay ws st) \<and>
          outage st' = map_option (\<lambda>k. k - length ws) (outage st) \<and>
          (case outage st of None \<Rightarrow> True | Some k \<Rightarrow> length ws \<le> k) \<and>
          (ws = [] \<or>
           (\<exists>ins. ws = (if stale_rows st obj (desired tag_list) = [] then []
                         else [DeleteItems (stale_rows st obj (desired tag_list))]) @ ins \<and>
                  deleted_batches ins = [] \<and> list_all (own obj) (inserted_rows ins)))"
proof -
  let ?stale = "stale_rows st obj (desired tag_list)"
  let ?dels = "if ?stale = [] then [] else [DeleteItems ?stale]"
  from update_tags_run [OF assms]
  have "st' = st \<and> outage st = Some 0 \<or>
     (\<exists>mid rows.
        tag_table mid = tag_table st \<and>
        tagged_item_table mid = filter (\<lambda>i. i \<notin> set ?stale) (tagged_item_table st) \<and>
        journal mid = journal st @ ?dels \<and>
        outage mid = (if ?stale = [] then outage st else map_option (\<lambda>k. k - 1) (outage st)) \<and>
        (?stale = [] \<or> outage st \<noteq> Some 0) \<and>
        added obj rows mid st')"
    by auto
  then show ?thesis
  proof
    assume "st' = st \<and> outage st = Some 0"
    then show ?thesis
      by (intro exI [of _ "[]"]) (simp add: replay_Nil)
  next
    assume "\<exists>mid rows.
        tag_table mid = tag_table st \<and>
        tagged_item_table mid = filter (\<lambda>i. i \<notin> set ?stale) (tagged_item_table st) \<and>
        journal mid = journal st @ ?dels \<and>
        outage mid = (if ?stale = [] then outage st else map_option (\<lambda>k. k - 1) (outage st)) \<and>
        (?stale = [] \<or> outage st \<noteq> Some 0) \<and>
        added obj rows mid st'"
    then obtain mid rows where mid:
        "tag_table mid = tag_table st"
        "tagged_item_table mid = filter (\<lambda>i. i \<notin> set ?stale) (tagged_item_table st)"
        "journal mid = journal st @ ?dels"
        "outage mid = (if ?stale = [] then outage st else map_option (\<lambda>k. k - 1) (outage st))"
        "?stale = [] \<or> outage st \<noteq> Some 0"
      and a: "added obj rows mid st'"
      by blast
    from a obtain ins where ins:
        "tag_table st' = tag_table mid @ inserted_tags ins"
        "tagged_item_table st' = tagged_item_table mid @ rows"
        "journal st' = journal mid @ ins"
        "list_all (own obj) rows" "inserted_rows ins = rows" "deleted_batches ins = []"
        "outage st' = map_option (\<lambda>k. k - length ins) (outage mid)"
        "case outage mid of None \<Rightarrow> True | Some k \<Rightarrow> length ins \<le> k"
      unfolding added_def by blast
    have after_dels: "tag_table (replay ?dels st) = tag_table st"
      "tagged_item_table (replay ?dels st) =
         filter (\<lambda>i. i \<notin> set ?stale) (tagged_item_table st)"
      by (simp_all add: replay_def)
    have re: "replay (?dels @ ins) st = replay ins (replay ?dels st)"
      by (rule replay_append)
    from replay_inserts [OF ins(6), of "replay ?dels st"]
    have tabs: "tag_table (replay (?dels @ ins) st) = tag_table st @ inserted_tags ins"
      "tagged_item_table (replay (?dels @ ins) st) =
         filter (\<lambda>i. i \<notin> set ?stale) (tagged_item_table st) @ inserted_rows ins"
      unfolding re after_dels by simp_all
    have j: "journal st' = journal st @ ?dels @ ins"
      using ins(3) mid(3) by simp
    have o: "outage st' = map_option (\<lambda>k. k - length (?dels @ ins)) (outage st)"
      using ins(7) mid(4) by (cases "outage st") (auto split: if_splits)
    have b: "case outage st of None \<Rightarrow> True | Some k \<Rightarrow> length (?dels @ ins) \<le> k"
      using ins(8) mid(4,5) by (cases "outage st") (auto split: if_splits)
    have shape: "\<exists>ins'. ?dels @ ins = ?dels @ ins' \<and> deleted_batches ins' = [] \<and>
                   list_all (own obj) (inserted_rows ins')"
      using ins(4,5,6) by blast
    from j tabs o b shape ins(1,2,5) mid(1,2) show ?thesis
      by (intro exI [of _ "?dels @ ins"]) simp
  qed
qed


text \<open>
  C3, as the code has it. \<open>update_tags\<close> opens no transaction, and every write is in
  the tables when it returns. When the storage fails during a call, the call ends with
  the storage error and nothing is rolled back: the store it leaves is the store it found
  with the writes applied that the storage accepted before it failed, as many as it still
  accepted, in their order: the batch delete of the stale rows, if it got that far, and
  then inserts of tags and of rows of the record. So the association table is as before
  when no batch delete and no row was accepted, and the whole store is when no write was.
  In every case the record keeps the current tags that are wanted and gets no tag that
  is neither current nor wanted, and the schema is kept.
\<close>

theorem update_tags_failure_keeps_writes:
  assumes "schema_ok st" and "update_tags st obj tag_list = (Inl e, st')"
  shows "e = StorageError \<and>
         (\<exists>ws. outage st = Some (length ws) \<and>
               st' = (replay ws st)\<lparr>journal := journal st @ ws, outage := Some 0\<rparr> \<and>
               (ws = [] \<or>
                (\<exists>ins. ws = (if stale_rows st obj (desired tag_list) = [] then []
                              else [DeleteItems (stale_rows st obj (desired tag_list))]) @ ins \<and>
                       deleted_batches ins = [] \<and> list_all (own obj) (inserted_rows ins))) \<and>
               (deleted_batches ws = [] \<and> inserted_rows ws = [] \<longrightarrow>
                  tagged_item_table st' = tagged_item_table st)) \<and>
         (outage st = Some 0 \<longrightarrow> st' = st) \<and>
         names_for st obj \<inter> desired tag_list \<subseteq> names_for st' obj \<and>
         names_for st' obj \<subseteq> names_for st obj \<union> desired tag_list \<and>
         schema_ok st'"
proof -
  let ?stale = "stale_rows st obj (desired tag_list)"
  from update_tags_run [OF assms]
  have s': "schema_ok st'"
    and e: "e = StorageError"
    and z: "outage st' = Some 0"
    and lower: "names_for st obj \<inter> desired tag_list \<subseteq> names_for st' obj"
    and upper: "names_for st' obj \<subseteq> names_for st obj \<union> desired tag_list"
    by auto
  from update_tags_writes [OF assms] obtain ws where ws:
      "journal st' = journal st @ ws"
      "tag_table st' = tag_table (replay ws st)"
      "tagged_item_table st' = tagged_item_table (replay ws st)"
      "outage st' = map_option (\<lambda>k. k - length ws) (outage st)"
      "case outage st of None \<Rightarrow> True | Some k \<Rightarrow> length ws \<le> k"
      "ws = [] \<or>
       (\<exists>ins. ws = (if ?stale = [] then [] else [DeleteItems ?stale]) @ ins \<and>
              deleted_batches ins = [] \<and> list_all (own obj) (inserted_rows ins))"
    by blast
  from z ws(4,5) have budget: "outage st = Some (length ws)"
    by (cases "outage st") auto
  have whole: "st' = (replay ws st)\<lparr>journal := journal st @ ws, outage := Some 0\<rparr>"
    using ws(1-3) z by (intro store.equality) simp_all
  have rows: "tagged_item_table st' = tagged_item_table st"
    if "deleted_batches ws = []" and "inserted_rows ws = []"
    using replay_inserts [OF that(1), of st] that(2) ws(3) by simp
  have first: "st' = st" if "outage st = Some 0"
  proof -
    from that budget have "ws = []" by simp
    with whole that show ?thesis
      by (intro store.equality) (simp_all add: replay_Nil)
  qed
  from budget whole ws(6) rows
  have "\<exists>ws. outage st = Some (length ws) \<and>
               st' = (replay ws st)\<lparr>journal := journal st @ ws, outage := Some 0\<rparr> \<and>
               (ws = [] \<or>
                (\<exists>ins. ws = (if ?stale = [] then [] else [DeleteItems ?stale]) @ ins \<and>
                       deleted_batches ins = [] \<and> list_all (own obj) (inserted_rows ins))) \<and>
               (deleted_batches ws = [] \<and> inserted_rows ws = [] \<longrightarrow>
                  tagged_item_table st' = tagged_item_table st)"
    by (intro exI [of _ ws]) blast
  with e first lower upper s' show ?thesis by blast
qed

theorem update_tags_failure_keeps_writes_witness:
  "schema_ok store_ab_failing \<and>
   update_tags store_ab_failing obj_A (Some ''c'') =
     (Inl StorageError, snd (update_tags store_ab_failing obj_A (Some ''c''))) \<and>
   outage store_ab_failing = Some 1 \<and>
   snd (update_tags store_ab_failing obj_A (Some ''c'')) =
     (replay [DeleteItems [\<lparr>item_id = 1, tag_fk = 1, content_type_id = 7, object_id = 1\<rparr>,
                           \<lparr>item_id = 2, tag_fk = 2, content_type_id = 7, object_id = 1\<rparr>]]
             store_ab_failing)
       \<lparr>journal := [DeleteItems [\<lparr>item_id = 1, tag_fk = 1, content_type_id = 7, object_id = 1\<rparr>,
                                \<lparr>item_id = 2, tag_fk = 2, content_type_id = 7, object_id = 1\<rparr>]],
        outage := Some 0\<rparr> \<and>
   tagged_item_table (snd (update_tags store_ab_failing obj_A (Some ''c''))) = [] \<and>
   tag_table (snd (update_tags (empty_store\<lparr>outage := Some 1\<rparr>) obj_A (Some ''c''))) =
     [\<lparr>tag_id = 1, tag_name = ''c''\<rparr>] \<and>
   tagged_item_table (snd (update_tags (empty_store\<lparr>outage := Some 1\<rparr>) obj_A (Some ''c''))) = [] \<and>
   schema_ok (snd (update_tags store_ab_failing obj_A (Some ''c'')))"
proof -
  have h: "schema_ok store_ab_failing" by (simp add: run_simps)
  have r: "update_tags store_ab_failing obj_A (Some ''c'') =
     (Inl StorageError, snd (update_tags store_ab_failing obj_A (Some ''c'')))"
    by (simp add: run_simps)
  have o: "outage store_ab_failing = Some 1" by (simp add: run_simps)
  have w: "snd (update_tags store_ab_failing obj_A (Some ''c'')) =
     (replay [DeleteItems [\<lparr>item_id = 1, tag_fk = 1, content_type_id = 7, object_id = 1\<rparr>,
                           \<lparr>item_id = 2, tag_fk = 2, content_type_id = 7, object_id = 1\<rparr>]]
             store_ab_failing)
       \<lparr>journal := [DeleteItems [\<lparr>item_id = 1, tag_fk = 1, content_type_id = 7, object_id = 1\<rparr>,
                                \<lparr>item_id = 2, tag_fk = 2, content_type_id = 7, object_id = 1\<rparr>]],
        outage := Some 0\<rparr>"
    by (simp add: run_simps replay_def)
  have t: "tagged_item_table (snd (update_tags store_ab_failing obj_A (Some ''c''))) = []"
    by (simp add: run_simps)
  have g: "tag_table (snd (update_tags (empty_store\<lparr>outage := Some 1\<rparr>) obj_A (Some ''c''))) =
     [\<lparr>tag_id = 1, tag_name = ''c''\<rparr>]"
    "tagged_item_table (snd (update_tags (empty_store\<lparr>outage := Some 1\<rparr>) obj_A (Some ''c''))) = []"
    by (simp_all add: run_simps)
  from update_tags_failure_keeps_writes [OF h r]
  have "schema_ok (snd (update_tags store_ab_failing obj_A (Some ''c'')))"
    by blast
  with h r o w t g show ?thesis by blast
qed

text \<open>
  C3, as the claim has it, fails: the storage accepts the batch delete and fails at the
  create, and the record, which had the tags \<open>a\<close> and \<open>b\<close>, is left with none.
\<close>

theorem update_tags_not_atomic:
  "fst (update_tags store_ab_failing obj_A (Some ''c'')) = Inl StorageError \<and>
   names_for store_ab_failing obj_A = {''a'', ''b''} \<and>
   names_for (snd (update_tags store_ab_failing obj_A (Some ''c''))) obj_A = {} \<and>
   filter (own obj_A) (tagged_item_table (snd (update_tags store_ab_failing obj_A (Some ''c''))))
     \<noteq> filter (own obj_A) (tagged_item_table store_ab_failing)"
proof -
  have "fst (update_tags store_ab_failing obj_A (Some ''c'')) = Inl StorageError"
    by (simp add: run_simps)
  moreover have "names_for store_ab_failing obj_A = {''a'', ''b''}"
    by (auto simp: run_simps)
  moreover have "names_for (snd (update_tags store_ab_failing obj_A (Some ''c''))) obj_A = {}"
    by (simp add: run_simps)
  moreover have "filter (own obj_A)
      (tagged_item_table (snd (update_tags store_ab_failing obj_A (Some ''c''))))
     \<noteq> filter (own obj_A) (tagged_item_table store_ab_failing)"
    by (simp add: run_simps)
  ultimately show ?thesis by blast
qed


section \<open>cloud_for_model\<close>

lemma those_map_Some: "those (map (\<lambda>x. Some (f x)) xs) = Some (map f xs)"
  by (induction xs) simp_all

lemma those_counts:
  "counted tags \<Longrightarrow> those (map count tags) = Some (counts_of tags)"
  by (induction tags) (auto simp: counted_def counts_of_def)

lemma usage_for_model_counted: "counted (usage_for_model st ctype True)"
  by (simp add: usage_for_model_def counted_def list_all_iff)

text \<open>For a positive number of steps the slice holds the thresholds 1 to \<open>steps\<close>.\<close>

lemma slice_thresholds:
  assumes "1 \<le> steps"
  shows "py_slice (map g [0..steps]) 1 (steps + 1) = map g [1..steps]"
proof -
  from assms have "[0..steps] = 0 # [1..steps]"
    by (simp add: upto_rec1)
  moreover from assms have "nat (steps + 1) = length (map g [0..steps])"
    by simp
  ultimately show ?thesis
    using assms by (simp add: py_slice_def Let_def)
qed

text \<open>The inner loop takes the first threshold that the weight is under, if there is one.\<close>

lemma set_font_size_done: "set_font_size c t True ths = t"
  by (induction ths) simp_all

lemma set_font_size_find:
  "set_font_size c t False ths =
     (case find (\<lambda>th. raw_weight c \<le> fst th) ths of
        None \<Rightarrow> t
      | Some th \<Rightarrow> t\<lparr>font_size := Some (snd th)\<rparr>)"
  by (induction ths) (simp_all add: set_font_size_done)

lemma nth_thresholds:
  "k < nat steps \<Longrightarrow> map g [1..steps] ! k = g (1 + int k)"
  by (simp add: nth_upto)

lemma find_thresholds_None:
  "find P (map g [1..steps]) = None \<longleftrightarrow> (\<forall>j. 1 \<le> j \<and> j \<le> steps \<longrightarrow> \<not> P (g j))"
  by (auto simp: find_None_iff)

lemma find_thresholds_Some:
  assumes "find P (map g [1..steps]) = Some y"
  shows "\<exists>i. 1 \<le> i \<and> i \<le> steps \<and> y = g i \<and> P (g i) \<and> (\<forall>j. 1 \<le> j \<and> j < i \<longrightarrow> \<not> P (g j))"
proof -
  from assms obtain k where k: "k < length (map g [1..steps])"
    "P (map g [1..steps] ! k)" "y = map g [1..steps] ! k"
    "\<forall>j<k. \<not> P (map g [1..steps] ! j)"
    unfolding find_Some_iff by blast
  from k(1) have kn: "k < nat steps" by simp
  have before: "\<not> P (g j)" if "1 \<le> j" "j < 1 + int k" for j
  proof -
    from that have "nat (j - 1) < k" by linarith
    with k(4) have "\<not> P (map g [1..steps] ! nat (j - 1))" by blast
    moreover have "map g [1..steps] ! nat (j - 1) = g j"
    proof -
      from that kn have "nat (j - 1) < nat steps" by linarith
      from nth_thresholds [OF this, of g] that(1) show ?thesis by simp
    qed
    ultimately show ?thesis by simp
  qed
  from kn have "1 \<le> 1 + int k" "1 + int k \<le> steps" by linarith+
  with k(2,3) before show ?thesis
    unfolding nth_thresholds [OF kn] by (intro exI [of _ "1 + int k"]) blast
qed


lemma raw_weight_spec: "raw_weight c = 100 * ln (real c + 2)"
  by (simp add: raw_weight_def)

lemma cloud_for_tags_result:
  assumes "counted tags" and "tags \<noteq> []" and "1 \<le> steps"
  shows "cloud_for_tags tags steps =
     Inr (map (\<lambda>t. set_font_size (case count t of Some c \<Rightarrow> c | None \<Rightarrow> 0) t False
                 (map (\<lambda>i. (spec_threshold (Min (set (counts_of tags)))
                                (Max (set (counts_of tags))) steps i, i)) [1..steps]))
              tags)"
proof -
  from assms(2) have ne: "counts_of tags \<noteq> []" by (simp add: counts_of_def)
  from assms(3) have nz: "steps \<noteq> 0" by simp
  show ?thesis
    unfolding cloud_for_tags_def those_counts [OF assms(1)] Let_def
    using ne nz by (simp add: spec_threshold_def slice_thresholds [OF assms(3)])
qed

text \<open>What the inner loop leaves in one tag whose count is \<open>c\<close>.\<close>

lemma set_font_size_first:
  assumes t'_def: "t' = set_font_size c t False (map (\<lambda>i. (g i, i)) [1..steps])"
  shows "the_tag t' = the_tag t \<and> count t' = count t \<and>
     (if \<exists>j. 1 \<le> j \<and> j \<le> steps \<and> raw_weight c \<le> g j
      then \<exists>i. font_size t' = Some i \<and> 1 \<le> i \<and> i \<le> steps \<and> raw_weight c \<le> g i \<and>
               (\<forall>j. 1 \<le> j \<and> j < i \<longrightarrow> \<not> raw_weight c \<le> g j)
      else font_size t' = font_size t)"
proof (cases "find (\<lambda>th. raw_weight c \<le> fst th) (map (\<lambda>i. (g i, i)) [1..steps])")
  case None
  then have "t' = t" by (simp add: t'_def set_font_size_find)
  moreover from None have "\<not> (\<exists>j. 1 \<le> j \<and> j \<le> steps \<and> raw_weight c \<le> g j)"
    unfolding find_thresholds_None by simp
  ultimately show ?thesis by (simp only: if_False simp_thms)
next
  case (Some th)
  then have t': "t' = t\<lparr>font_size := Some (snd th)\<rparr>"
    by (simp add: t'_def set_font_size_find)
  from find_thresholds_Some [OF Some]
  obtain i where i: "1 \<le> i" "i \<le> steps" "th = (g i, i)" "raw_weight c \<le> g i"
    "\<forall>j. 1 \<le> j \<and> j < i \<longrightarrow> \<not> raw_weight c \<le> g j"
    by auto
  then have "\<exists>j. 1 \<le> j \<and> j \<le> steps \<and> raw_weight c \<le> g j" by blast
  with t' i show ?thesis by auto
qed

text \<open>Arithmetic of the thresholds.\<close>

lemma under_threshold_mono:
  assumes "c1 \<le> c2" and "under_threshold cs steps c2 i"
  shows "under_threshold cs steps c1 i"
proof -
  from assms(1) have "ln (real c1 + 2) \<le> ln (real c2 + 2)" by simp
  with assms(2) show ?thesis unfolding under_threshold_def by linarith
qed

lemma under_last_threshold:
  assumes "1 \<le> steps" and "c \<in> set cs"
  shows "under_threshold cs steps c steps"
proof -
  from assms(2) have "c \<le> Max (set cs)" by simp
  moreover from assms(1)
  have "real (Min (set cs)) +
          real_of_int steps * ((real (Max (set cs)) - real (Min (set cs))) / real_of_int steps) =
        real (Max (set cs))"
    by simp
  ultimately show ?thesis
    unfolding under_threshold_def spec_threshold_def by simp
qed

lemma under_first_threshold_equal:
  assumes "set cs = {c}"
  shows "under_threshold cs steps c 1"
  using assms unfolding under_threshold_def spec_threshold_def by simp


lemma counts_of_nth:
  "k < length tags \<Longrightarrow>
     (case count (tags ! k) of Some c \<Rightarrow> c | None \<Rightarrow> 0) = counts_of tags ! k"
  by (simp add: counts_of_def)

lemma under_threshold_raw:
  "raw_weight c \<le> spec_threshold (Min (set cs)) (Max (set cs)) steps i \<longleftrightarrow>
     under_threshold cs steps c i"
  by (simp add: under_threshold_def raw_weight_spec)

text \<open>The result of the body, tag by tag: the first threshold the tag is under.\<close>

lemma cloud_for_tags_font_size:
  assumes "counted tags" and "tags \<noteq> []" and "1 \<le> steps"
  shows "\<exists>res. cloud_for_tags tags steps = Inr res \<and> length res = length tags \<and>
     (\<forall>k<length tags.
        the_tag (res ! k) = the_tag (tags ! k) \<and> count (res ! k) = count (tags ! k) \<and>
        (if \<exists>j. 1 \<le> j \<and> j \<le> steps \<and>
                 under_threshold (counts_of tags) steps (counts_of tags ! k) j
         then \<exists>i. font_size (res ! k) = Some i \<and> 1 \<le> i \<and> i \<le> steps \<and>
                  under_threshold (counts_of tags) steps (counts_of tags ! k) i \<and>
                  (\<forall>j. 1 \<le> j \<and> j < i \<longrightarrow>
                       \<not> under_threshold (counts_of tags) steps (counts_of tags ! k) j)
         else font_size (res ! k) = font_size (tags ! k)))"
proof -
  let ?g = "\<lambda>i. spec_threshold (Min (set (counts_of tags))) (Max (set (counts_of tags))) steps i"
  let ?f = "\<lambda>t. set_font_size (case count t of Some c \<Rightarrow> c | None \<Rightarrow> 0) t False
                  (map (\<lambda>i. (?g i, i)) [1..steps])"
  define res where "res = map ?f tags"
  have len: "length res = length tags" by (simp add: res_def)
  have res: "cloud_for_tags tags steps = Inr res"
    unfolding res_def using assms by (rule cloud_for_tags_result)
  have "the_tag (res ! k) = the_tag (tags ! k) \<and>
        count (res ! k) = count (tags ! k) \<and>
        (if \<exists>j. 1 \<le> j \<and> j \<le> steps \<and>
                 under_threshold (counts_of tags) steps (counts_of tags ! k) j
         then \<exists>i. font_size (res ! k) = Some i \<and> 1 \<le> i \<and> i \<le> steps \<and>
                  under_threshold (counts_of tags) steps (counts_of tags ! k) i \<and>
                  (\<forall>j. 1 \<le> j \<and> j < i \<longrightarrow>
                       \<not> under_threshold (counts_of tags) steps (counts_of tags ! k) j)
         else font_size (res ! k) = font_size (tags ! k))"
    if k: "k < length tags" for k
  proof -
    from k have "res ! k =
        set_font_size (counts_of tags ! k) (tags ! k) False (map (\<lambda>i. (?g i, i)) [1..steps])"
      by (simp add: res_def counts_of_nth)
    from set_font_size_first [OF this] show ?thesis
      unfolding under_threshold_raw .
  qed
  with res len show ?thesis by blast
qed

text \<open>
  With real numbers the last threshold is the weight of the largest count, so every tag
  is under a threshold and gets a font size.
\<close>

lemma cloud_for_tags_all_sized:
  assumes "counted tags" and "tags \<noteq> []" and "1 \<le> steps"
  shows "\<exists>res. cloud_for_tags tags steps = Inr res \<and> length res = length tags \<and>
     (\<forall>k<length tags.
        \<exists>i. font_size (res ! k) = Some i \<and> 1 \<le> i \<and> i \<le> steps \<and>
            under_threshold (counts_of tags) steps (counts_of tags ! k) i \<and>
            (\<forall>j. 1 \<le> j \<and> j < i \<longrightarrow>
                 \<not> under_threshold (counts_of tags) steps (counts_of tags ! k) j))"
proof -
  from cloud_for_tags_font_size [OF assms] obtain res where
    res: "cloud_for_tags tags steps = Inr res" "length res = length tags"
    and each: "\<And>k. k < length tags \<Longrightarrow>
        (if \<exists>j. 1 \<le> j \<and> j \<le> steps \<and>
                 under_threshold (counts_of tags) steps (counts_of tags ! k) j
         then \<exists>i. font_size (res ! k) = Some i \<and> 1 \<le> i \<and> i \<le> steps \<and>
                  under_threshold (counts_of tags) steps (counts_of tags ! k) i \<and>
                  (\<forall>j. 1 \<le> j \<and> j < i \<longrightarrow>
                       \<not> under_threshold (counts_of tags) steps (counts_of tags ! k) j)
         else font_size (res ! k) = font_size (tags ! k))"
    by blast
  have "\<exists>i. font_size (res ! k) = Some i \<and> 1 \<le> i \<and> i \<le> steps \<and>
            under_threshold (counts_of tags) steps (counts_of tags ! k) i \<and>
            (\<forall>j. 1 \<le> j \<and> j < i \<longrightarrow>
                 \<not> under_threshold (counts_of tags) steps (counts_of tags ! k) j)"
    if k: "k < length tags" for k
  proof -
    from k have "counts_of tags ! k \<in> set (counts_of tags)"
      by (simp add: counts_of_def)
    from under_last_threshold [OF assms(3) this] assms(3)
    have "\<exists>j. 1 \<le> j \<and> j \<le> steps \<and>
              under_threshold (counts_of tags) steps (counts_of tags ! k) j"
      by blast
    with each [OF k] show ?thesis by simp
  qed
  with res show ?thesis by blast
qed


lemma upto_0_4: "[0..4] = [0, 1, 2, 3, 4]"
  by code_simp

lemmas cloud_simps =
  cloud_for_model_def cloud_for_tags_def usage_for_model_def filter_tags_by_items_def
  py_slice_def raw_weight_def Let_def counts_of_def counted_def upto_0_4
  tags_1_10_100_def store_cloud_def empty_store_def

text \<open>
  C2, as the code has it. For a type without tagged records the usage list is empty and
  \<open>max(temp)\<close> raises \<open>ValueError\<close>: \<open>cloud_for_model\<close> does not return the empty list.
\<close>

theorem cloud_for_model_empty_raises:
  assumes "usage_for_model st ctype True = []"
  shows "cloud_for_model st ctype steps = Inl ValueError"
  using assms by (simp add: cloud_for_model_def cloud_for_tags_def)

theorem cloud_for_model_empty_raises_witness:
  "usage_for_model empty_store 7 True = [] \<and> cloud_for_model empty_store 7 4 = Inl ValueError"
proof -
  have u: "usage_for_model empty_store 7 True = []"
    by (simp add: cloud_simps)
  from cloud_for_model_empty_raises [OF u, of 4] u show ?thesis by simp
qed

subsection \<open>The body in the arithmetic of the machine\<close>

lemma set_font_size_with_done: "set_font_size_with ops c t True ths = t"
  by (induction ths) simp_all

lemma set_font_size_with_find:
  "set_font_size_with ops c t False ths =
     (case find (\<lambda>th. fle ops (raw_weight_with ops c) (fst th)) ths of
        None \<Rightarrow> t
      | Some th \<Rightarrow> t\<lparr>font_size := Some (snd th)\<rparr>)"
  by (induction ths) (simp_all add: set_font_size_with_done)

lemma set_font_size_with_first:
  assumes t'_def: "t' = set_font_size_with ops c t False (map (\<lambda>i. (g i, i)) [1..steps])"
  shows "the_tag t' = the_tag t \<and> count t' = count t \<and>
     (if \<exists>j. 1 \<le> j \<and> j \<le> steps \<and> fle ops (raw_weight_with ops c) (g j)
      then \<exists>i. font_size t' = Some i \<and> 1 \<le> i \<and> i \<le> steps \<and>
               fle ops (raw_weight_with ops c) (g i) \<and>
               (\<forall>j. 1 \<le> j \<and> j < i \<longrightarrow> \<not> fle ops (raw_weight_with ops c) (g j))
      else font_size t' = font_size t)"
proof (cases "find (\<lambda>th. fle ops (raw_weight_with ops c) (fst th)) (map (\<lambda>i. (g i, i)) [1..steps])")
  case None
  then have "t' = t" by (simp add: t'_def set_font_size_with_find)
  moreover from None
  have "\<not> (\<exists>j. 1 \<le> j \<and> j \<le> steps \<and> fle ops (raw_weight_with ops c) (g j))"
    unfolding find_thresholds_None by simp
  ultimately show ?thesis by (simp only: if_False simp_thms)
next
  case (Some th)
  then have t': "t' = t\<lparr>font_size := Some (snd th)\<rparr>"
    by (simp add: t'_def set_font_size_with_find)
  from find_thresholds_Some [OF Some]
  obtain i where i: "1 \<le> i" "i \<le> steps" "th = (g i, i)"
    "fle ops (raw_weight_with ops c) (g i)"
    "\<forall>j. 1 \<le> j \<and> j < i \<longrightarrow> \<not> fle ops (raw_weight_with ops c) (g j)"
    by auto
  then have "\<exists>j. 1 \<le> j \<and> j \<le> steps \<and> fle ops (raw_weight_with ops c) (g j)" by blast
  with t' i show ?thesis by auto
qed

lemma cloud_for_tags_with_result:
  assumes "counted tags" and "tags \<noteq> []" and "1 \<le> steps"
  shows "cloud_for_tags_with ops tags steps =
     Inr (map (\<lambda>t. set_font_size_with ops (case count t of Some c \<Rightarrow> c | None \<Rightarrow> 0) t False
                 (map (\<lambda>i. (threshold_with ops (Min (set (counts_of tags)))
                                (Max (set (counts_of tags))) steps i, i)) [1..steps]))
              tags)"
proof -
  from assms(2) have ne: "counts_of tags \<noteq> []" by (simp add: counts_of_def)
  from assms(3) have nz: "steps \<noteq> 0" by simp
  show ?thesis
    unfolding cloud_for_tags_with_def those_counts [OF assms(1)] Let_def
    using ne nz by (simp add: threshold_with_def slice_thresholds [OF assms(3)])
qed

lemma under_threshold_with_raw:
  "fle ops (raw_weight_with ops c)
       (threshold_with ops (Min (set cs)) (Max (set cs)) steps i) \<longleftrightarrow>
     under_threshold_with ops cs steps c i"
  by (simp add: under_threshold_with_def raw_weight_with_def)

lemma cloud_for_tags_with_font_size:
  assumes "counted tags" and "tags \<noteq> []" and "1 \<le> steps"
  shows "\<exists>res. cloud_for_tags_with ops tags steps = Inr res \<and> length res = length tags \<and>
     (\<forall>k<length tags.
        the_tag (res ! k) = the_tag (tags ! k) \<and> count (res ! k) = count (tags ! k) \<and>
        (if \<exists>j. 1 \<le> j \<and> j \<le> steps \<and>
                 under_threshold_with ops (counts_of tags) steps (counts_of tags ! k) j
         then \<exists>i. font_size (res ! k) = Some i \<and> 1 \<le> i \<and> i \<le> steps \<and>
                  under_threshold_with ops (counts_of tags) steps (counts_of tags ! k) i \<and>
                  (\<forall>j. 1 \<le> j \<and> j < i \<longrightarrow>
                       \<not> under_threshold_with ops (counts_of tags) steps (counts_of tags ! k) j)
         else font_size (res ! k) = font_size (tags ! k)))"
proof -
  let ?g = "\<lambda>i. threshold_with ops (Min (set (counts_of tags))) (Max (set (counts_of tags))) steps i"
  let ?f = "\<lambda>t. set_font_size_with ops (case count t of Some c \<Rightarrow> c | None \<Rightarrow> 0) t False
                  (map (\<lambda>i. (?g i, i)) [1..steps])"
  define res where "res = map ?f tags"
  have len: "length res = length tags" by (simp add: res_def)
  have res: "cloud_for_tags_with ops tags steps = Inr res"
    unfolding res_def using assms by (rule cloud_for_tags_with_result)
  have "the_tag (res ! k) = the_tag (tags ! k) \<and>
        count (res ! k) = count (tags ! k) \<and>
        (if \<exists>j. 1 \<le> j \<and> j \<le> steps \<and>
                 under_threshold_with ops (counts_of tags) steps (counts_of tags ! k) j
         then \<exists>i. font_size (res ! k) = Some i \<and> 1 \<le> i \<and> i \<le> steps \<and>
                  under_threshold_with ops (counts_of tags) steps (counts_of tags ! k) i \<and>
                  (\<forall>j. 1 \<le> j \<and> j < i \<longrightarrow>
                       \<not> under_threshold_with ops (counts_of tags) steps (counts_of tags ! k) j)
         else font_size (res ! k) = font_size (tags ! k))"
    if k: "k < length tags" for k
  proof -
    from k have "res ! k =
        set_font_size_with ops (counts_of tags ! k) (tags ! k) False
          (map (\<lambda>i. (?g i, i)) [1..steps])"
      by (simp add: res_def counts_of_nth)
    from set_font_size_with_first [OF this] show ?thesis
      unfolding under_threshold_with_raw .
  qed
  with res len show ?thesis by blast
qed

text \<open>Over the real numbers it is the body as modelled before.\<close>

lemma raw_weight_with_real: "raw_weight_with real_ops c = raw_weight c"
  by (simp add: raw_weight_with_def raw_weight_def real_ops_def)

lemma set_font_size_with_real:
  "set_font_size_with real_ops c t font_set ths = set_font_size c t font_set ths"
proof (induction ths arbitrary: t font_set)
  case Nil
  show ?case by simp
next
  case (Cons th ths)
  have "fle real_ops (raw_weight_with real_ops c) (fst th) \<longleftrightarrow> raw_weight c \<le> fst th"
    by (simp add: raw_weight_with_real) (simp add: real_ops_def)
  with Cons show ?case by simp
qed

lemma cloud_for_tags_with_real:
  "cloud_for_tags_with real_ops tags steps = cloud_for_tags tags steps"
proof -
  have ops: "to_float real_ops = real_of_int" "fadd real_ops = (+)" "fsub real_ops = (-)"
    "fmul real_ops = (*)" "fdiv real_ops = (/)" "flog real_ops = ln"
    by (simp_all add: real_ops_def)
  show ?thesis
    unfolding cloud_for_tags_with_def cloud_for_tags_def set_font_size_with_real ops
    by (cases "those (map count tags)") (simp_all add: Let_def)
qed

lemma cloud_for_model_with_real:
  "cloud_for_model_with real_ops st ctype steps = cloud_for_model st ctype steps"
  by (simp add: cloud_for_model_with_def cloud_for_model_def cloud_for_tags_with_real)


text \<open>
  C7. For a list of tags that all carry a count, not empty, and at least one step, the
  body of \<open>cloud_for_model\<close> returns the tags in their order, each with the tag and the
  count it had, whatever the machine's float operations return. With the weight of the
  tag and the thresholds computed by those operations as the code computes them, a tag
  that is under some threshold from 1 to \<open>steps\<close> gets as font size the first such
  threshold, a whole number from 1 to \<open>steps\<close>, and no later threshold replaces it; a
  tag under none keeps the font size it had, so a fresh tag stays without one.
  \<open>cloud_for_model\<close> runs this body on the list of \<open>usage_for_model\<close>, whose tags
  all carry a count, and over the real numbers it is the body modelled before.
\<close>

theorem cloud_for_model_first_match:
  assumes "counted tags" and "tags \<noteq> []" and "1 \<le> steps"
  shows "(\<exists>res. cloud_for_tags_with ops tags steps = Inr res \<and> length res = length tags \<and>
     (\<forall>k<length tags.
        the_tag (res ! k) = the_tag (tags ! k) \<and> count (res ! k) = count (tags ! k) \<and>
        (if \<exists>j. 1 \<le> j \<and> j \<le> steps \<and>
                 under_threshold_with ops (counts_of tags) steps (counts_of tags ! k) j
         then \<exists>i. font_size (res ! k) = Some i \<and> 1 \<le> i \<and> i \<le> steps \<and>
                  under_threshold_with ops (counts_of tags) steps (counts_of tags ! k) i \<and>
                  (\<forall>j. 1 \<le> j \<and> j < i \<longrightarrow>
                       \<not> under_threshold_with ops (counts_of tags) steps (counts_of tags ! k) j)
         else font_size (res ! k) = font_size (tags ! k)))) \<and>
     cloud_for_model_with ops st ctype steps =
       cloud_for_tags_with ops (usage_for_model st ctype True) steps \<and>
     counted (usage_for_model st ctype True) \<and>
     cloud_for_model_with real_ops st ctype steps = cloud_for_model st ctype steps"
  using cloud_for_tags_with_font_size [OF assms, of ops] usage_for_model_counted [of st ctype]
    cloud_for_model_with_real [of st ctype steps]
  by (simp add: cloud_for_model_with_def)

theorem cloud_for_model_first_match_witness:
  "counted (usage_for_model store_cloud 7 True) \<and>
   map count (usage_for_model store_cloud 7 True) = [Some 1, Some 2, Some 2] \<and>
   (1::int) \<le> 4 \<and>
   (\<exists>res. cloud_for_model_with real_ops store_cloud 7 4 = Inr res \<and>
          map font_size res = [Some 1, Some 4, Some 4]) \<and>
   under_threshold_with real_ops [1, 2, 2] 4 1 1 \<and>
   \<not> under_threshold_with real_ops [1, 2, 2] 4 2 3 \<and>
   under_threshold_with real_ops [1, 2, 2] 4 2 4 \<and>
   counted tags_1_2 \<and> tags_1_2 \<noteq> [] \<and>
   (\<exists>res. cloud_for_tags_with rounding_ops tags_1_2 4 = Inr res \<and>
          map font_size res = [Some 1, None]) \<and>
   under_threshold_with rounding_ops [1, 2] 4 1 1 \<and>
   \<not> under_threshold_with rounding_ops [1, 2] 4 2 4"
proof -
  have c: "counted (usage_for_model store_cloud 7 True)"
    by (rule usage_for_model_counted)
  have n: "usage_for_model store_cloud 7 True \<noteq> []"
    by (simp add: cloud_simps)
  have s: "(1::int) \<le> 4" by simp
  have m: "map count (usage_for_model store_cloud 7 True) = [Some 1, Some 2, Some 2]"
    by (simp add: cloud_simps)
  have u: "under_threshold_with real_ops [1, 2, 2] 4 1 1"
    "\<not> under_threshold_with real_ops [1, 2, 2] 4 2 3"
    "under_threshold_with real_ops [1, 2, 2] 4 2 4"
    by (simp_all add: under_threshold_with_def threshold_with_def real_ops_def)
  have f: "map font_size
             (case cloud_for_model_with real_ops store_cloud 7 4 of Inr res \<Rightarrow> res | Inl e \<Rightarrow> []) =
             [Some 1, Some 4, Some 4]"
    by (simp add: cloud_for_model_with_real) (simp add: cloud_simps)
  from cloud_for_model_first_match [OF c n s, of real_ops store_cloud 7]
  obtain res where "cloud_for_model_with real_ops store_cloud 7 4 = Inr res" by auto
  with f have real: "\<exists>res. cloud_for_model_with real_ops store_cloud 7 4 = Inr res \<and>
          map font_size res = [Some 1, Some 4, Some 4]"
    by simp
  have c2: "counted tags_1_2" and n2: "tags_1_2 \<noteq> []"
    by (simp_all add: counted_def tags_1_2_def)
  have u2: "under_threshold_with rounding_ops [1, 2] 4 1 1"
    "\<not> under_threshold_with rounding_ops [1, 2] 4 2 4"
    by (simp_all add: under_threshold_with_def threshold_with_def rounding_ops_def)
  have f2: "map font_size
              (case cloud_for_tags_with rounding_ops tags_1_2 4 of Inr res \<Rightarrow> res | Inl e \<Rightarrow> []) =
              [Some 1, None]"
    by (simp add: cloud_for_tags_with_def raw_weight_with_def rounding_ops_def tags_1_2_def
          py_slice_def Let_def upto_0_4)
  from cloud_for_model_first_match [OF c2 n2 s, of rounding_ops empty_store 7]
  obtain res2 where "cloud_for_tags_with rounding_ops tags_1_2 4 = Inr res2" by auto
  with f2 have rounded: "\<exists>res. cloud_for_tags_with rounding_ops tags_1_2 4 = Inr res \<and>
          map font_size res = [Some 1, None]"
    by simp
  from c m s real u c2 n2 rounded u2 show ?thesis by blast
qed

text \<open>
  C8. Font sizes grow with the counts: of two tags of one result, when the one with the
  larger count has a font size, the other has one that is not larger. Every tag whose
  count is below the largest count has a font size from 1 to \<open>steps\<close>. (Floats are real
  numbers here; the statement leaves the tags of the largest count out, as the claim
  does.)
\<close>

theorem cloud_for_model_monotone:
  assumes "counted tags" and "tags \<noteq> []" and "1 \<le> steps"
  shows "(\<exists>res. cloud_for_tags tags steps = Inr res \<and> length res = length tags \<and>
     (\<forall>k<length tags. \<forall>l<length tags.
        counts_of tags ! k \<le> counts_of tags ! l \<longrightarrow>
        (\<forall>i2. font_size (res ! l) = Some i2 \<longrightarrow>
              (\<exists>i1. font_size (res ! k) = Some i1 \<and> i1 \<le> i2))) \<and>
     (\<forall>k<length tags.
        counts_of tags ! k < Max (set (counts_of tags)) \<longrightarrow>
        (\<exists>i. font_size (res ! k) = Some i \<and> 1 \<le> i \<and> i \<le> steps))) \<and>
     cloud_for_model st ctype steps = cloud_for_tags (usage_for_model st ctype True) steps \<and>
     counted (usage_for_model st ctype True)"
proof -
  let ?cs = "counts_of tags"
  from cloud_for_tags_all_sized [OF assms] obtain res where
    res: "cloud_for_tags tags steps = Inr res" "length res = length tags"
    and each: "\<And>k. k < length tags \<Longrightarrow>
        \<exists>i. font_size (res ! k) = Some i \<and> 1 \<le> i \<and> i \<le> steps \<and>
            under_threshold ?cs steps (?cs ! k) i \<and>
            (\<forall>j. 1 \<le> j \<and> j < i \<longrightarrow> \<not> under_threshold ?cs steps (?cs ! k) j)"
    by blast
  have mono: "\<exists>i1. font_size (res ! k) = Some i1 \<and> i1 \<le> i2"
    if k: "k < length tags" and l: "l < length tags" and le: "?cs ! k \<le> ?cs ! l"
      and i2: "font_size (res ! l) = Some i2" for k l i2
  proof -
    from each [OF l] i2 have l2: "1 \<le> i2" "under_threshold ?cs steps (?cs ! l) i2"
      by auto
    from under_threshold_mono [OF le l2(2)]
    have under: "under_threshold ?cs steps (?cs ! k) i2" .
    from each [OF k] obtain i1 where i1: "font_size (res ! k) = Some i1"
      "\<forall>j. 1 \<le> j \<and> j < i1 \<longrightarrow> \<not> under_threshold ?cs steps (?cs ! k) j"
      by blast
    have "i1 \<le> i2"
    proof (rule ccontr)
      assume "\<not> i1 \<le> i2"
      with l2(1) i1(2) have "\<not> under_threshold ?cs steps (?cs ! k) i2" by simp
      with under show False by contradiction
    qed
    with i1(1) show ?thesis by blast
  qed
  have range: "\<exists>i. font_size (res ! k) = Some i \<and> 1 \<le> i \<and> i \<le> steps"
    if "k < length tags" for k
    using each [OF that] by blast
  from res mono range
  have "\<exists>res. cloud_for_tags tags steps = Inr res \<and> length res = length tags \<and>
     (\<forall>k<length tags. \<forall>l<length tags.
        ?cs ! k \<le> ?cs ! l \<longrightarrow>
        (\<forall>i2. font_size (res ! l) = Some i2 \<longrightarrow>
              (\<exists>i1. font_size (res ! k) = Some i1 \<and> i1 \<le> i2))) \<and>
     (\<forall>k<length tags.
        ?cs ! k < Max (set ?cs) \<longrightarrow>
        (\<exists>i. font_size (res ! k) = Some i \<and> 1 \<le> i \<and> i \<le> steps))"
    by (intro exI [of _ res]) blast
  with usage_for_model_counted [of st ctype] show ?thesis
    by (simp add: cloud_for_model_def)
qed

theorem cloud_for_model_monotone_witness:
  "counted tags_1_10_100 \<and> tags_1_10_100 \<noteq> [] \<and> (1::int) \<le> 4 \<and>
   counts_of tags_1_10_100 = [1, 10, 100] \<and>
   (\<exists>res. cloud_for_tags tags_1_10_100 4 = Inr res \<and>
          map font_size res = [Some 1, Some 1, Some 4])"
proof -
  have c: "counted tags_1_10_100" by (simp add: cloud_simps)
  have n: "tags_1_10_100 \<noteq> []" by (simp add: cloud_simps)
  have s: "(1::int) \<le> 4" by simp
  have m: "counts_of tags_1_10_100 = [1, 10, 100]" by (simp add: cloud_simps)
  have f: "map font_size (case cloud_for_tags tags_1_10_100 4 of Inr res \<Rightarrow> res | Inl e \<Rightarrow> []) =
             [Some 1, Some 1, Some 4]"
    by (simp add: cloud_simps)
  from cloud_for_model_monotone [OF c n s, of empty_store 7]
  obtain res where "cloud_for_tags tags_1_10_100 4 = Inr res" by auto
  with f have "\<exists>res. cloud_for_tags tags_1_10_100 4 = Inr res \<and>
          map font_size res = [Some 1, Some 1, Some 4]"
    by simp
  with c n s m show ?thesis by blast
qed

text \<open>
  C10. When all tags have the same count, the least and the largest count are equal, all
  thresholds are the weight of that count, and every tag gets the font size 1, for any
  number of steps from 1 on.
\<close>

theorem cloud_for_model_equal_counts:
  assumes "counted tags" and "set (counts_of tags) = {c}" and "1 \<le> steps"
  shows "(\<exists>res. cloud_for_tags tags steps = Inr res \<and> length res = length tags \<and>
            (\<forall>k<length tags. font_size (res ! k) = Some 1)) \<and>
         cloud_for_model st ctype steps = cloud_for_tags (usage_for_model st ctype True) steps \<and>
         counted (usage_for_model st ctype True)"
proof -
  let ?cs = "counts_of tags"
  from assms(2) have ne: "tags \<noteq> []" by (auto simp: counts_of_def)
  from cloud_for_tags_all_sized [OF assms(1) ne assms(3)] obtain res where
    res: "cloud_for_tags tags steps = Inr res" "length res = length tags"
    and each: "\<And>k. k < length tags \<Longrightarrow>
        \<exists>i. font_size (res ! k) = Some i \<and> 1 \<le> i \<and> i \<le> steps \<and>
            under_threshold ?cs steps (?cs ! k) i \<and>
            (\<forall>j. 1 \<le> j \<and> j < i \<longrightarrow> \<not> under_threshold ?cs steps (?cs ! k) j)"
    by blast
  have one: "font_size (res ! k) = Some 1" if k: "k < length tags" for k
  proof -
    from k have "?cs ! k \<in> set ?cs" by (simp add: counts_of_def)
    with assms(2) have ck: "?cs ! k = c" by simp
    from under_first_threshold_equal [OF assms(2), of steps]
    have first: "under_threshold ?cs steps (?cs ! k) 1" unfolding ck .
    from each [OF k] obtain i where i: "font_size (res ! k) = Some i" "1 \<le> i"
      "\<forall>j. 1 \<le> j \<and> j < i \<longrightarrow> \<not> under_threshold ?cs steps (?cs ! k) j"
      by blast
    have "i = 1"
    proof (rule ccontr)
      assume "i \<noteq> 1"
      with i(2) have "1 < i" by simp
      with i(3) have "\<not> under_threshold ?cs steps (?cs ! k) 1" by simp
      with first show False by contradiction
    qed
    with i(1) show ?thesis by simp
  qed
  from res one
  have "\<exists>res. cloud_for_tags tags steps = Inr res \<and> length res = length tags \<and>
            (\<forall>k<length tags. font_size (res ! k) = Some 1)"
    by blast
  with usage_for_model_counted [of st ctype] show ?thesis
    by (simp add: cloud_for_model_def)
qed

theorem cloud_for_model_equal_counts_witness:
  "counted (usage_for_model store_ab 7 True) \<and>
   set (counts_of (usage_for_model store_ab 7 True)) = {1} \<and> (1::int) \<le> 4 \<and>
   (\<exists>res. cloud_for_model store_ab 7 4 = Inr res \<and> map font_size res = [Some 1, Some 1])"
proof -
  have c: "counted (usage_for_model store_ab 7 True)"
    by (rule usage_for_model_counted)
  have e: "set (counts_of (usage_for_model store_ab 7 True)) = {1}"
    by (simp add: cloud_simps store_ab_def)
  have s: "(1::int) \<le> 4" by simp
  have f: "map font_size (case cloud_for_model store_ab 7 4 of Inr res \<Rightarrow> res | Inl e \<Rightarrow> []) =
             [Some 1, Some 1]"
    by (simp add: cloud_simps store_ab_def)
  from cloud_for_model_equal_counts [OF c e s, of store_ab 7]
  obtain res where "cloud_for_model store_ab 7 4 = Inr res"
    by (auto simp: cloud_for_model_def)
  with f have "\<exists>res. cloud_for_model store_ab 7 4 = Inr res \<and>
                 map font_size res = [Some 1, Some 1]"
    by simp
  with c e s show ?thesis by blast
qed

end
